theory Spec2Isabelle
  imports Main "HOL-Library.Multiset" "HOL-Library.Sublist"
begin

section \<open>Go strings and the library functions the package calls\<close>

text \<open>
  A Go string is a sequence of bytes, so it is a \<^typ>\<open>char list\<close> here: \<open>len(s)\<close> is
  \<^const>\<open>length\<close>, \<open>s[:n]\<close> is \<^const>\<open>take\<close>, \<open>s[n:]\<close> is \<^const>\<open>drop\<close>. The byte value of
  a character is \<open>byte c\<close>.
\<close>

abbreviation byte :: "char \<Rightarrow> nat" where
  "byte c \<equiv> of_char c"

abbreviation sq :: char where "sq \<equiv> CHR 0x27"
abbreviation dq :: char where "dq \<equiv> CHR 0x22"
abbreviation bsl :: char where "bsl \<equiv> CHR 0x5C"
abbreviation LF :: char where "LF \<equiv> CHR 0x0A"
abbreviation CR :: char where "CR \<equiv> CHR 0x0D"
abbreviation TAB :: char where "TAB \<equiv> CHR 0x09"
abbreviation NUL :: char where "NUL \<equiv> CHR 0x00"
abbreviation CtrlZ :: char where "CtrlZ \<equiv> CHR 0x1A"
abbreviation SP :: char where "SP \<equiv> CHR 0x20"

text \<open>\<open>strings.HasPrefix(s, p)\<close>.\<close>

fun HasPrefix :: "string \<Rightarrow> string \<Rightarrow> bool" where
  "HasPrefix s [] = True"
| "HasPrefix [] (p # ps) = False"
| "HasPrefix (c # cs) (p # ps) = (c = p \<and> HasPrefix cs ps)"

text \<open>
  \<open>strings.Index(s, sub)\<close>: the byte offset of the first occurrence of \<open>sub\<close> in \<open>s\<close>;
  Go's \<open>-1\<close> is \<open>None\<close>. The empty string occurs at offset 0 of every string.
\<close>

fun Index :: "string \<Rightarrow> string \<Rightarrow> nat option" where
  "Index [] sub = (if sub = [] then Some 0 else None)"
| "Index (c # cs) sub =
     (if HasPrefix (c # cs) sub then Some 0 else map_option Suc (Index cs sub))"

text \<open>\<open>strings.IndexByte(s, c)\<close>.\<close>

fun IndexByte :: "string \<Rightarrow> char \<Rightarrow> nat option" where
  "IndexByte [] b = None"
| "IndexByte (c # cs) b = (if c = b then Some 0 else map_option Suc (IndexByte cs b))"

text \<open>\<open>strings.Contains(s, sub)\<close> is \<open>Index(s, sub) >= 0\<close>.\<close>

definition Contains :: "string \<Rightarrow> string \<Rightarrow> bool" where
  "Contains s sub = (Index s sub \<noteq> None)"

text \<open>
  \<open>utf8.DecodeRuneInString\<close>: the code point at the front of the string and the number of
  bytes it takes. A byte sequence that is not a well-formed UTF-8 encoding (a stray
  continuation byte, an overlong form, a surrogate, a value above U+10FFFF, a truncated
  sequence) decodes to \<open>RuneError\<close> = U+FFFD with width 1.
\<close>

definition RuneError :: nat where
  "RuneError = 0xFFFD"

definition isCont :: "nat \<Rightarrow> bool" where
  "isCont b = (0x80 \<le> b \<and> b \<le> 0xBF)"

fun DecodeRune :: "string \<Rightarrow> nat \<times> nat" where
  "DecodeRune [] = (RuneError, 0)"
| "DecodeRune (c0 # cs) =
     (let b0 = byte c0 in
      if b0 < 0x80 then (b0, 1)
      else if 0xC2 \<le> b0 \<and> b0 \<le> 0xDF then
        (case cs of
           c1 # _ \<Rightarrow>
             if isCont (byte c1) then ((b0 mod 0x20) * 0x40 + byte c1 mod 0x40, 2)
             else (RuneError, 1)
         | _ \<Rightarrow> (RuneError, 1))
      else if 0xE0 \<le> b0 \<and> b0 \<le> 0xEF then
        (case cs of
           c1 # c2 # _ \<Rightarrow>
             if (if b0 = 0xE0 then 0xA0 else 0x80) \<le> byte c1
                \<and> byte c1 \<le> (if b0 = 0xED then 0x9F else 0xBF)
                \<and> isCont (byte c2)
             then ((b0 mod 0x10) * 0x1000 + (byte c1 mod 0x40) * 0x40 + byte c2 mod 0x40, 3)
             else (RuneError, 1)
         | _ \<Rightarrow> (RuneError, 1))
      else if 0xF0 \<le> b0 \<and> b0 \<le> 0xF4 then
        (case cs of
           c1 # c2 # c3 # _ \<Rightarrow>
             if (if b0 = 0xF0 then 0x90 else 0x80) \<le> byte c1
                \<and> byte c1 \<le> (if b0 = 0xF4 then 0x8F else 0xBF)
                \<and> isCont (byte c2) \<and> isCont (byte c3)
             then ((b0 mod 0x08) * 0x40000 + (byte c1 mod 0x40) * 0x1000
                   + (byte c2 mod 0x40) * 0x40 + byte c3 mod 0x40, 4)
             else (RuneError, 1)
         | _ \<Rightarrow> (RuneError, 1))
      else (RuneError, 1))"

lemma DecodeRune_width: "s \<noteq> [] \<Longrightarrow> 0 < snd (DecodeRune s)"
  by (cases s) (auto simp: Let_def split: list.splits)

text \<open>
  \<open>for _, r := range s\<close> visits the code points of \<open>s\<close> in order, an ill-formed byte
  as U+FFFD, one byte at a time. \<open>runes s\<close> is the sequence of values \<open>r\<close> takes.
\<close>

function runes :: "string \<Rightarrow> nat list" where
  "runes s = (if s = [] then []
              else fst (DecodeRune s) # runes (drop (snd (DecodeRune s)) s))"
  by pat_completeness auto
termination
  by (relation "measure length") (use DecodeRune_width in \<open>auto simp: Suc_le_eq\<close>)

declare runes.simps [simp del]

text \<open>
  \<open>strings.ReplaceAll(s, old, new)\<close>: the non-overlapping occurrences of \<open>old\<close>, found
  left to right, are replaced by \<open>new\<close>. For an empty \<open>old\<close> Go inserts \<open>new\<close> before
  every code point and at the end.
\<close>

function replaceNonEmpty :: "string \<Rightarrow> string \<Rightarrow> string \<Rightarrow> string" where
  "replaceNonEmpty s old new =
     (if s = [] \<or> old = [] then s
      else if HasPrefix s old then new @ replaceNonEmpty (drop (length old) s) old new
      else hd s # replaceNonEmpty (tl s) old new)"
  by pat_completeness auto
termination
  by (relation "measure (\<lambda>(s, old, new). length s)") (auto simp: Suc_le_eq)

declare replaceNonEmpty.simps [simp del]

function insertAtRunes :: "string \<Rightarrow> string \<Rightarrow> string" where
  "insertAtRunes s new =
     (if s = [] then new
      else new @ take (snd (DecodeRune s)) s @ insertAtRunes (drop (snd (DecodeRune s)) s) new)"
  by pat_completeness auto
termination
  by (relation "measure (\<lambda>(s, new). length s)") (use DecodeRune_width in \<open>auto simp: Suc_le_eq\<close>)

declare insertAtRunes.simps [simp del]

definition ReplaceAll :: "string \<Rightarrow> string \<Rightarrow> string \<Rightarrow> string" where
  "ReplaceAll s old new = (if old = [] then insertAtRunes s new else replaceNonEmpty s old new)"

section \<open>quoteString\<close>

definition quoteString :: "string \<Rightarrow> string" where
  "quoteString s0 =
     (let s = ReplaceAll s0 [bsl] [bsl, bsl];
          s = ReplaceAll s [sq] [sq, sq];
          s = ReplaceAll s [dq] [bsl, dq];
          s = ReplaceAll s [LF] [bsl, CHR ''n''];
          s = ReplaceAll s [CR] [bsl, CHR ''r''];
          s = ReplaceAll s [TAB] [bsl, CHR ''t''];
          s = ReplaceAll s [NUL] [bsl, CHR ''0''];
          s = ReplaceAll s [CtrlZ] [bsl, CHR ''Z'']
      in [sq] @ s @ [sq])"


section \<open>The Unicode-dependent library functions\<close>

text \<open>
  \<open>norm.NFKC.String\<close>, \<open>strings.ToLower\<close> and \<open>strings.TrimSpace\<close> consult the Unicode
  tables; \<open>strconv.FormatFloat\<close> and \<open>time.Time.Format\<close> work on values that have no
  counterpart here. What these functions do on text made of ASCII bytes only is fixed
  below; what they do on other text, and the two formatters, are fields of a record
  \<open>lib\<close> that every definition takes as its first argument, so that every theorem
  stated for an arbitrary \<open>lib\<close> holds whatever the tables contain.
\<close>

typedecl float64
typedecl Time

record lib =
  NFKC_nonASCII :: "string \<Rightarrow> string"
  ToLower_nonASCII :: "string \<Rightarrow> string"
  TrimFunc_IsSpace :: "string \<Rightarrow> string"
  TrimRightFunc_IsSpace :: "string \<Rightarrow> string"
  FormatFloat :: "float64 \<Rightarrow> string"
  FormatTime :: "Time \<Rightarrow> string"

definition isASCII :: "string \<Rightarrow> bool" where
  "isASCII s = list_all (\<lambda>c. byte c < 0x80) s"

text \<open>\<open>norm.NFKC.String\<close>: text of ASCII bytes is in normal form already.\<close>

definition NFKC :: "lib \<Rightarrow> string \<Rightarrow> string" where
  "NFKC L s = (if isASCII s then s else NFKC_nonASCII L s)"

text \<open>
  \<open>strings.ToLower\<close>: on text of ASCII bytes, \<open>A\<close>..\<open>Z\<close> become \<open>a\<close>..\<open>z\<close> and every other
  byte stays; other text is mapped code point by code point through the Unicode tables,
  which can change its length in bytes.
\<close>

definition lowerByte :: "char \<Rightarrow> char" where
  "lowerByte c = (if byte (CHR ''A'') \<le> byte c \<and> byte c \<le> byte (CHR ''Z'')
                  then char_of (byte c + 32) else c)"

definition ToLower :: "lib \<Rightarrow> string \<Rightarrow> string" where
  "ToLower L s = (if isASCII s then map lowerByte s else ToLower_nonASCII L s)"

text \<open>
  \<open>strings.TrimSpace\<close>: white space bytes are skipped from the left, then from the right;
  the scan hands over to the Unicode-aware \<open>TrimFunc\<close> (from the left) or
  \<open>TrimRightFunc\<close> (from the right) at the first byte that is not ASCII.
\<close>

definition asciiSpace :: "char \<Rightarrow> bool" where
  "asciiSpace c = (c = TAB \<or> c = LF \<or> c = CHR 0x0B \<or> c = CHR 0x0C \<or> c = CR \<or> c = SP)"

definition TrimSpace :: "lib \<Rightarrow> string \<Rightarrow> string" where
  "TrimSpace L s =
     (let t = dropWhile asciiSpace s in
      if t \<noteq> [] \<and> 0x80 \<le> byte (hd t) then TrimFunc_IsSpace L t
      else
        let u = dropWhile asciiSpace (rev t) in
        if u \<noteq> [] \<and> 0x80 \<le> byte (hd u) then TrimRightFunc_IsSpace L (rev u)
        else rev u)"

text \<open>
  \<open>regexp.MustCompile(`\s+`).ReplaceAllString(s, " ")\<close>: every maximal run of the bytes
  tab, line feed, form feed, carriage return and space becomes one space. The flag says
  whether the previous byte belonged to a run.
\<close>

definition regexpSpace :: "char \<Rightarrow> bool" where
  "regexpSpace c = (c = TAB \<or> c = LF \<or> c = CHR 0x0C \<or> c = CR \<or> c = SP)"

fun collapseRuns :: "bool \<Rightarrow> string \<Rightarrow> string" where
  "collapseRuns inRun [] = []"
| "collapseRuns inRun (c # cs) =
     (if regexpSpace c then (if inRun then collapseRuns True cs else SP # collapseRuns True cs)
      else c # collapseRuns False cs)"

definition collapseWhitespace :: "string \<Rightarrow> string" where
  "collapseWhitespace s = collapseRuns False s"

section \<open>Results\<close>

text \<open>
  A Go function of this package returns a value, returns an error, panics, or does not
  return. An error or a panic is \<open>Inl\<close>, a value is \<open>Inr\<close>; a call that does not return
  is \<open>None\<close>.
\<close>

datatype error =
    MorePlaceholders
  | MoreValues
  | UnsupportedType string
  | ValuerError string
  | Panic

type_synonym 'a result = "(error + 'a) option"

section \<open>replaceCaseInsensitive\<close>

text \<open>
  The loop of \<open>replaceCaseInsensitive\<close>, on the state \<open>(lastEnd, result)\<close>. The slice
  expressions \<open>sLower[lastEnd:]\<close>, \<open>s[lastEnd:actualIndex]\<close> and \<open>s[lastEnd:]\<close> panic when
  a bound lies beyond the length of the sliced string; \<open>lastEnd \<le> actualIndex\<close> always.
  With an empty \<open>old\<close> the loop finds a match at \<open>lastEnd\<close> for ever.
\<close>

partial_function (option) replaceLoop ::
  "string \<Rightarrow> string \<Rightarrow> string \<Rightarrow> nat \<Rightarrow> string \<Rightarrow> nat \<Rightarrow> string \<Rightarrow> string result"
where
  "replaceLoop s sLower oldLower oldLen new lastEnd res =
     (if length sLower < lastEnd then Some (Inl Panic)
      else case Index (drop lastEnd sLower) oldLower of
        None \<Rightarrow>
          if length s < lastEnd then Some (Inl Panic)
          else Some (Inr (res @ drop lastEnd s))
      | Some index \<Rightarrow>
          if length s < lastEnd + index then Some (Inl Panic)
          else replaceLoop s sLower oldLower oldLen new (lastEnd + index + oldLen)
                 (res @ take index (drop lastEnd s) @ new))"

declare replaceLoop.simps [code]

definition replaceCaseInsensitive :: "lib \<Rightarrow> string \<Rightarrow> string \<Rightarrow> string \<Rightarrow> string result" where
  "replaceCaseInsensitive L s old new =
     replaceLoop s (ToLower L s) (ToLower L old) (length old) new 0 []"

section \<open>The validators\<close>

text \<open>\<open>type ParamType int\<close> with its four constants.\<close>

type_synonym ParamType = int

definition ParamTypeGeneric :: ParamType where "ParamTypeGeneric = 0"
definition ParamTypeID :: ParamType where "ParamTypeID = 1"
definition ParamTypeName :: ParamType where "ParamTypeName = 2"
definition ParamTypeDescription :: ParamType where "ParamTypeDescription = 3"

text \<open>
  A \<open>map[string]string\<close> literal is the list of its entries. \<open>for pattern, replacement :=
  range m\<close> visits every entry once, in an order the Go runtime chooses anew at every
  loop: a \<open>sched\<close> stands for that choice, it maps the entries to the order of the visit.
\<close>

type_synonym patterns = "(string \<times> string) list"
type_synonym sched = "patterns \<Rightarrow> patterns"

definition visitsOnce :: "sched \<Rightarrow> patterns \<Rightarrow> bool" where
  "visitsOnce sch m = (mset (sch m) = mset m)"

text \<open>
  The loop shared by the three pattern-based validators and \<open>sanitizeStringInput\<close>:
  \<open>for pattern, replacement := range dangerousPatterns { if strings.Contains(lower,
  pattern) { result = replaceCaseInsensitive(result, pattern, replacement); lower =
  strings.ToLower(result) } }\<close>, on the state \<open>(lower, result)\<close>.
\<close>

fun rangePatterns :: "lib \<Rightarrow> patterns \<Rightarrow> string \<Rightarrow> string \<Rightarrow> string result" where
  "rangePatterns L [] lower res = Some (Inr res)"
| "rangePatterns L ((pattern, replacement) # rest) lower res =
     (if Contains lower pattern then
        (case replaceCaseInsensitive L res pattern replacement of
           None \<Rightarrow> None
         | Some (Inl e) \<Rightarrow> Some (Inl e)
         | Some (Inr res') \<Rightarrow> rangePatterns L rest (ToLower L res') res')
      else rangePatterns L rest lower res)"

text \<open>\<open>if len(result) > n { result = result[:n] }\<close>.\<close>

definition limitLen :: "nat \<Rightarrow> string \<Rightarrow> string" where
  "limitLen n s = (if length s > n then take n s else s)"

definition mapResult :: "('a \<Rightarrow> 'b) \<Rightarrow> 'a result \<Rightarrow> 'b result" where
  "mapResult f r = (case r of None \<Rightarrow> None | Some (Inl e) \<Rightarrow> Some (Inl e) | Some (Inr x) \<Rightarrow> Some (Inr (f x)))"

subsection \<open>IDValidator\<close>

definition isIDRune :: "nat \<Rightarrow> bool" where
  "isIDRune r =
     ((byte (CHR ''a'') \<le> r \<and> r \<le> byte (CHR ''z'')) \<or> (byte (CHR ''A'') \<le> r \<and> r \<le> byte (CHR ''Z''))
      \<or> (byte (CHR ''0'') \<le> r \<and> r \<le> byte (CHR ''9'')) \<or> r = byte (CHR ''-'') \<or> r = byte (CHR ''_''))"

definition IDValidator_Validate :: "lib \<Rightarrow> string \<Rightarrow> string" where
  "IDValidator_Validate L value =
     (let normalized = NFKC L value;
          cleaned = map (\<lambda>r. if isIDRune r then char_of r else CHR ''_'') (runes normalized)
      in limitLen 100 cleaned)"


subsection \<open>DescriptionValidator\<close>

definition DescriptionPatterns :: patterns where
  "DescriptionPatterns =
     [([sq] @ ''; drop table'', [sq] @ ''; drop_table''),
      ([sq] @ ''; delete from'', [sq] @ ''; delete_from''),
      ([sq] @ ''; truncate table'', [sq] @ ''; truncate_table''),
      ([sq] @ ''; insert into'', [sq] @ ''; insert_into''),
      (''; drop table'', ''; drop_table''),
      (''; delete from'', ''; delete_from''),
      (''; truncate table'', ''; truncate_table''),
      (''; insert into'', ''; insert_into''),
      (''union select'', ''union_select''),
      (''union all select'', ''union_all_select''),
      (''xp_cmdshell'', ''xp_cmd_shell''),
      (''sp_executesql'', ''sp_execute_sql''),
      (''--'', ''_-''),
      (''/*'', ''/_*''),
      (''*/'', ''*_/'')]"

definition DescriptionValidator_Validate :: "lib \<Rightarrow> sched \<Rightarrow> string \<Rightarrow> string result" where
  "DescriptionValidator_Validate L sch value =
     (let normalized = NFKC L value;
          normalized = ReplaceAll normalized [CR, LF] [LF];
          normalized = ReplaceAll normalized [CR] [LF];
          lower = ToLower L normalized
      in mapResult (limitLen 10000) (rangePatterns L (sch DescriptionPatterns) lower normalized))"

subsection \<open>GenericValidator\<close>

definition GenericPatterns :: patterns where
  "GenericPatterns =
     [(''union select'', ''union_select''),
      (''union all select'', ''union_all_select''),
      ([sq] @ ''; drop table'', [sq] @ ''; drop_table''),
      ([sq] @ ''; delete from'', [sq] @ ''; delete_from''),
      ([sq] @ ''; truncate table'', [sq] @ ''; truncate_table''),
      ([sq] @ ''; insert into'', [sq] @ ''; insert_into''),
      ([sq] @ ''; update '', [sq] @ ''; update_''),
      (''; drop table'', ''; drop_table''),
      (''; delete from'', ''; delete_from''),
      (''; truncate table'', ''; truncate_table''),
      (''; insert into'', ''; insert_into''),
      (''; update '', ''; update_''),
      ('' or 1=1'', ''_or_1=1''),
      ('' or '' @ [sq] @ ''1'' @ [sq] @ ''='' @ [sq] @ ''1'', ''_or_'' @ [sq] @ ''1'' @ [sq] @ ''='' @ [sq] @ ''1''),
      ('' and 1=1'', ''_and_1=1''),
      (''/*'', ''/_*''),
      (''*/'', ''*_/''),
      (''--'', ''__''),
      (''xp_cmdshell'', ''xp_cmd_shell''),
      (''sp_executesql'', ''sp_execute_sql'')]"

definition GenericValidator_Validate :: "lib \<Rightarrow> sched \<Rightarrow> string \<Rightarrow> string result" where
  "GenericValidator_Validate L sch value =
     (let normalized = NFKC L value;
          normalized = ReplaceAll normalized [TAB] [SP];
          normalized = ReplaceAll normalized [LF] [SP];
          normalized = ReplaceAll normalized [CR] [SP];
          normalized = collapseWhitespace normalized;
          normalized = TrimSpace L normalized;
          lower = ToLower L normalized
      in mapResult (limitLen 2000) (rangePatterns L (sch GenericPatterns) lower normalized))"

subsection \<open>NameValidator\<close>

definition NamePatterns :: patterns where
  "NamePatterns =
     [(''union select'', ''union_select''),
      (''union all select'', ''union_all_select''),
      ('' or '', ''_or_''),
      ('' and '', ''_and_''),
      ([sq] @ '' or '' @ [sq], [sq] @ ''_or_'' @ [sq]),
      ([dq] @ '' or '' @ [dq], [dq] @ ''_or_'' @ [dq]),
      ([sq] @ '' and '' @ [sq], [sq] @ ''_and_'' @ [sq]),
      ([dq] @ '' and '' @ [dq], [dq] @ ''_and_'' @ [dq]),
      ('' or 1=1'', ''_or_1=1''),
      ('' or '' @ [sq] @ ''1'' @ [sq] @ ''='' @ [sq] @ ''1'', ''_or_'' @ [sq] @ ''1'' @ [sq] @ ''='' @ [sq] @ ''1''),
      ([sq] @ ''; drop table'', [sq] @ ''; drop_table''),
      ([sq] @ ''; delete from'', [sq] @ ''; delete_from''),
      ([sq] @ ''; insert into'', [sq] @ ''; insert_into''),
      ([sq] @ ''; update set'', [sq] @ ''; update_set''),
      (''/*'', ''/_*''),
      (''*/'', ''*_/''),
      (''--'', ''__''),
      (''#'', ''_#''),
      (''xp_cmdshell'', ''xp_cmd_shell''),
      (''sp_executesql'', ''sp_execute_sql''),
      (''ascii'', ''_ascii_''),
      (''substring'', ''_substring_''),
      (''concat'', ''_concat_''),
      (''extractvalue'', ''_extractvalue_''),
      (''waitfor'', ''_waitfor_''),
      (''delay'', ''_delay_'')]"

definition NameValidator_Validate :: "lib \<Rightarrow> sched \<Rightarrow> string \<Rightarrow> string result" where
  "NameValidator_Validate L sch value =
     (let normalized = NFKC L value;
          normalized = ReplaceAll normalized [TAB] [SP];
          normalized = ReplaceAll normalized [LF] [SP];
          normalized = ReplaceAll normalized [CR] [SP];
          normalized = collapseWhitespace normalized;
          normalized = TrimSpace L normalized;
          lower = ToLower L normalized
      in mapResult (limitLen 500) (rangePatterns L (sch NamePatterns) lower normalized))"

subsection \<open>The ParamValidator interface and the registry\<close>

datatype ParamValidator = IDValidator | DescriptionValidator | GenericValidator | NameValidator

fun GetType :: "ParamValidator \<Rightarrow> ParamType" where
  "GetType IDValidator = ParamTypeID"
| "GetType DescriptionValidator = ParamTypeDescription"
| "GetType GenericValidator = ParamTypeGeneric"
| "GetType NameValidator = ParamTypeName"

fun Validate :: "lib \<Rightarrow> sched \<Rightarrow> ParamValidator \<Rightarrow> string \<Rightarrow> string result" where
  "Validate L sch IDValidator value = Some (Inr (IDValidator_Validate L value))"
| "Validate L sch DescriptionValidator value = DescriptionValidator_Validate L sch value"
| "Validate L sch GenericValidator value = GenericValidator_Validate L sch value"
| "Validate L sch NameValidator value = NameValidator_Validate L sch value"

record TypeAwareProcessor =
  validators :: "ParamType \<rightharpoonup> ParamValidator"

definition RegisterValidator :: "TypeAwareProcessor \<Rightarrow> ParamValidator \<Rightarrow> TypeAwareProcessor" where
  "RegisterValidator tap validator =
     tap\<lparr>validators := (validators tap)(GetType validator \<mapsto> validator)\<rparr>"

definition NewTypeAwareProcessor :: TypeAwareProcessor where
  "NewTypeAwareProcessor =
     (let processor = \<lparr>validators = Map.empty\<rparr>;
          processor = RegisterValidator processor IDValidator;
          processor = RegisterValidator processor NameValidator;
          processor = RegisterValidator processor DescriptionValidator;
          processor = RegisterValidator processor GenericValidator
      in processor)"

text \<open>
  \<open>GetValidator\<close> returns an interface value; the one it returns when not even the
  generic validator is registered is nil (\<open>None\<close>), and calling \<open>Validate\<close> on it panics.
\<close>

definition GetValidator :: "TypeAwareProcessor \<Rightarrow> ParamType \<Rightarrow> ParamValidator option" where
  "GetValidator tap paramType =
     (case validators tap paramType of
        Some validator \<Rightarrow> Some validator
      | None \<Rightarrow> validators tap ParamTypeGeneric)"

definition ProcessString ::
  "lib \<Rightarrow> sched \<Rightarrow> TypeAwareProcessor \<Rightarrow> string \<Rightarrow> ParamType \<Rightarrow> string result" where
  "ProcessString L sch tap value paramType =
     (case GetValidator tap paramType of
        None \<Rightarrow> Some (Inl Panic)
      | Some validator \<Rightarrow> Validate L sch validator value)"

definition globalProcessor :: TypeAwareProcessor where
  "globalProcessor = NewTypeAwareProcessor"

section \<open>TypeInferrer\<close>

definition isCJKRune :: "nat \<Rightarrow> bool" where
  "isCJKRune r =
     ((0x4e00 \<le> r \<and> r \<le> 0x9fff) \<or> (0x3400 \<le> r \<and> r \<le> 0x4dbf) \<or> (0xf900 \<le> r \<and> r \<le> 0xfaff))"

definition namePatterns :: "string list" where
  "namePatterns =
     [[CHR 0xE9, CHR 0xA1, CHR 0xB9, CHR 0xE7, CHR 0x9B, CHR 0xAE],
      [CHR 0xE5, CHR 0xB0, CHR 0x8F, CHR 0xE5, CHR 0x8C, CHR 0xBA],
      [CHR 0xE5, CHR 0xA4, CHR 0xA7, CHR 0xE5, CHR 0x8E, CHR 0xA6],
      [CHR 0xE5, CHR 0xB9, CHR 0xBF, CHR 0xE5, CHR 0x9C, CHR 0xBA],
      [CHR 0xE4, CHR 0xB8, CHR 0xAD, CHR 0xE5, CHR 0xBF, CHR 0x83],
      [CHR 0xE8, CHR 0x8A, CHR 0xB1, CHR 0xE5, CHR 0x9B, CHR 0xAD],
      [CHR 0xE5, CHR 0x85, CHR 0xAC, CHR 0xE5, CHR 0xAF, CHR 0x93],
      [CHR 0xE5, CHR 0x88, CHR 0xAB, CHR 0xE5, CHR 0xA2, CHR 0x85],
      [CHR 0xE6, CHR 0x9C, CHR 0x9F],
      [CHR 0xE5, CHR 0x8C, CHR 0xBA],
      [CHR 0xE5, CHR 0x8F, CHR 0xB7]]"

definition InferType :: "string \<Rightarrow> ParamType" where
  "InferType value =
     (if length value = 0 then ParamTypeGeneric
      else if length value \<le> 100 \<and> list_all isIDRune (runes value) then ParamTypeID
      else if length value > 500 \<or> Contains value [LF] \<or> Contains value [CR]
        then ParamTypeDescription
      else if list_ex isCJKRune (runes value) \<or> list_ex (Contains value) namePatterns
        then ParamTypeName
      else ParamTypeGeneric)"

section \<open>literal\<close>

text \<open>
  The values \<open>literal\<close> tells apart by their dynamic type. \<open>VInt\<close> is a value of any of the
  ten integer types, \<open>VFloat\<close> a \<open>float32\<close> or \<open>float64\<close> value as the \<open>float64\<close> that
  \<open>reflectFloat\<close> returns. \<open>VValuerOk dv\<close> and \<open>VValuerErr e\<close> are values of another type that
  implements \<open>driver.Valuer\<close>, whose \<open>Value\<close> method returns \<open>dv\<close>, or fails with \<open>e\<close>;
  \<open>VOther T\<close> is a value of any remaining type, \<open>T\<close> its name as \<open>%T\<close> prints it.
\<close>

datatype val =
    VNil
  | VBool bool
  | VInt int
  | VFloat float64
  | VString string
  | VBytes string
  | VTime Time
  | VValuerOk val
  | VValuerErr string
  | VOther string

definition FormatBool :: "bool \<Rightarrow> string" where
  "FormatBool b = (if b then ''true'' else ''false'')"

text \<open>\<open>fmt.Sprintf("%d", v)\<close>: the decimal digits, after a minus sign when negative.\<close>

function digits :: "nat \<Rightarrow> string" where
  "digits n = (if n < 10 then [''0123456789'' ! n]
               else digits (n div 10) @ [''0123456789'' ! (n mod 10)])"
  by pat_completeness auto
termination
  by (relation "measure id") auto

declare digits.simps [simp del]

definition formatInt :: "int \<Rightarrow> string" where
  "formatInt i = (if i < 0 then CHR ''-'' # digits (nat (- i)) else digits (nat i))"

fun literal :: "lib \<Rightarrow> sched \<Rightarrow> val \<Rightarrow> string result" where
  "literal L sch VNil = Some (Inr ''NULL'')"
| "literal L sch (VBool v) = Some (Inr (FormatBool v))"
| "literal L sch (VInt v) = Some (Inr (formatInt v))"
| "literal L sch (VFloat v) = Some (Inr (FormatFloat L v))"
| "literal L sch (VString v) =
     (let paramType = InferType v;
          sanitized = ProcessString L sch globalProcessor v paramType
      in mapResult quoteString sanitized)"
| "literal L sch (VBytes v) =
     (let str = v;
          paramType = InferType str;
          sanitized = ProcessString L sch globalProcessor str paramType
      in mapResult quoteString sanitized)"
| "literal L sch (VTime v) = Some (Inr ([sq] @ FormatTime L v @ [sq]))"
| "literal L sch (VValuerErr err) = Some (Inl (ValuerError err))"
| "literal L sch (VValuerOk dv) = literal L sch dv"
| "literal L sch (VOther T) = Some (Inl (UnsupportedType T))"

section \<open>Expand\<close>

text \<open>
  The loop of \<open>Expand\<close>, on the state \<open>(sql, argI, buf)\<close>; \<open>start\<close> is 0 throughout. The
  \<open>i\<close>-th call of \<open>literal\<close> runs under the visiting order \<open>schs i\<close>.
\<close>

lemma IndexByte_less: "IndexByte s c = Some pos \<Longrightarrow> pos < length s"
  by (induction s arbitrary: pos) (auto split: if_splits)

function ExpandLoop ::
  "lib \<Rightarrow> (nat \<Rightarrow> sched) \<Rightarrow> val list \<Rightarrow> string \<Rightarrow> nat \<Rightarrow> string \<Rightarrow> string result" where
  "ExpandLoop L schs vars sql argI buf =
     (case IndexByte sql (CHR ''?'') of
        None \<Rightarrow>
          if argI \<noteq> length vars then Some (Inl MoreValues)
          else Some (Inr (buf @ sql))
      | Some pos \<Rightarrow>
          if argI \<ge> length vars then Some (Inl MorePlaceholders)
          else (case literal L (schs argI) (vars ! argI) of
                  None \<Rightarrow> None
                | Some (Inl err) \<Rightarrow> Some (Inl err)
                | Some (Inr lit) \<Rightarrow>
                    ExpandLoop L schs vars (drop (pos + 1) sql) (argI + 1)
                      (buf @ take pos sql @ lit)))"
  by pat_completeness auto
termination
  by (relation "measure (\<lambda>(L, schs, vars, sql, argI, buf). length sql)")
     (auto dest: IndexByte_less)

declare ExpandLoop.simps [simp del]

definition Expand :: "lib \<Rightarrow> (nat \<Rightarrow> sched) \<Rightarrow> string \<Rightarrow> val list \<Rightarrow> string result" where
  "Expand L schs sql vars = ExpandLoop L schs vars sql 0 []"

section \<open>sanitizeStringInput\<close>

definition sanitizePatterns :: patterns where
  "sanitizePatterns =
     [(''union select'', ''union_select''),
      (''union all select'', ''union_all_select''),
      ([sq] @ '' or '' @ [sq] @ ''1'' @ [sq] @ ''='' @ [sq] @ ''1'', [sq] @ ''_or_'' @ [sq] @ ''1'' @ [sq] @ ''='' @ [sq] @ ''1''),
      ([sq] @ '' or 1=1'', [sq] @ ''_or_1=1''),
      ([sq] @ ''; drop table'', [sq] @ '';_drop_table''),
      ([sq] @ ''; delete from'', [sq] @ '';_delete_from''),
      ([sq] @ ''; update '', [sq] @ '';_update_''),
      ([sq] @ ''; insert into'', [sq] @ '';_insert_into''),
      (''/*'', ''/_*''),
      (''*/'', ''*_/''),
      (''--'', ''__''),
      (''xp_cmdshell'', ''xp_cmd_shell''),
      (''sp_executesql'', ''sp_execute_sql'')]"

definition sanitizeStringInput :: "lib \<Rightarrow> sched \<Rightarrow> string \<Rightarrow> string result" where
  "sanitizeStringInput L sch s0 =
     (let s = limitLen 65535 s0;
          lower = ToLower L s
      in rangePatterns L (sch sanitizePatterns) lower s)"


section \<open>Definitions that follow the specification\<close>

text \<open>
  The escaping of one byte as the specification lists it: what \<open>quoteString\<close> is meant to
  put in the place of each byte of its input.
\<close>

definition escapeByte :: "char \<Rightarrow> string" where
  "escapeByte c =
     (if c = bsl then [bsl, bsl]
      else if c = sq then [sq, sq]
      else if c = dq then [bsl, dq]
      else if c = LF then [bsl, CHR ''n'']
      else if c = CR then [bsl, CHR ''r'']
      else if c = TAB then [bsl, CHR ''t'']
      else if c = NUL then [bsl, CHR ''0'']
      else if c = CtrlZ then [bsl, CHR ''Z'']
      else [c])"

text \<open>The eight substitutions of \<open>quoteString\<close>, in the order the specification gives.\<close>

definition escapeSteps :: "(string \<times> string) list" where
  "escapeSteps =
     [([bsl], [bsl, bsl]), ([sq], [sq, sq]), ([dq], [bsl, dq]), ([LF], [bsl, CHR ''n'']),
      ([CR], [bsl, CHR ''r'']), ([TAB], [bsl, CHR ''t'']), ([NUL], [bsl, CHR ''0'']),
      ([CtrlZ], [bsl, CHR ''Z''])]"

text \<open>
  The case-insensitive neutralizer as the specification describes it, for one pattern:
  the text is scanned left to right; where the lower-cased text starts with the
  lower-cased pattern the replacement is emitted and the occurrence skipped, elsewhere
  the byte is copied as it is.
\<close>

function neutralizeOne :: "string \<Rightarrow> string \<Rightarrow> string \<Rightarrow> string" where
  "neutralizeOne s old new =
     (if s = [] \<or> old = [] then s
      else if prefix (map lowerByte old) (map lowerByte s)
        then new @ neutralizeOne (drop (length old) s) old new
      else hd s # neutralizeOne (tl s) old new)"
  by pat_completeness auto
termination
  by (relation "measure (\<lambda>(s, old, new). length s)") auto

declare neutralizeOne.simps [simp del]

text \<open>
  The patterns in turn: each works on the text the previous one left, so a replacement
  made for one pattern is seen by the next.
\<close>

definition neutralizeAll :: "patterns \<Rightarrow> string \<Rightarrow> string" where
  "neutralizeAll ps s = fold (\<lambda>(p, r) t. neutralizeOne t p r) ps s"

text \<open>
  What the tables of this package satisfy: a pattern is not empty, is made of ASCII
  bytes and is in lower case already; a replacement is made of ASCII bytes.
\<close>

definition okPattern :: "string \<times> string \<Rightarrow> bool" where
  "okPattern pr =
     (fst pr \<noteq> [] \<and> isASCII (fst pr) \<and> map lowerByte (fst pr) = fst pr \<and> isASCII (snd pr))"

text \<open>The allow-list \<open>[A-Za-z0-9_-]\<close> of the ID validator and of type inference.\<close>

definition idAlphabet :: string where
  "idAlphabet = ''abcdefghijklmnopqrstuvwxyzABCDEFGHIJKLMNOPQRSTUVWXYZ0123456789_-''"

definition isIDByte :: "char \<Rightarrow> bool" where
  "isIDByte c = (c \<in> set idAlphabet)"

text \<open>What the ID validator writes for one code point of the normalized text.\<close>

definition idSubst :: "nat \<Rightarrow> char" where
  "idSubst r = (if r < 128 \<and> isIDByte (char_of r) then char_of r else CHR ''_'')"

text \<open>
  A library for the examples: text that is not ASCII is left as it is by its three text
  functions. The examples below are ASCII text, on which no field of it is consulted.
\<close>

definition plainLib :: lib where
  "plainLib =
     \<lparr>NFKC_nonASCII = (\<lambda>s. s), ToLower_nonASCII = (\<lambda>s. s), TrimFunc_IsSpace = (\<lambda>s. s),
      TrimRightFunc_IsSpace = (\<lambda>s. s), FormatFloat = (\<lambda>x. []), FormatTime = (\<lambda>x. [])\<rparr>"

text \<open>
  The white space policy of the Name and Generic validators on ASCII text (tab, line
  feed and carriage return become spaces, runs of white space become one space, white
  space at both ends is removed), and the line-end policy of the Description validator.
\<close>

definition trimASCII :: "string \<Rightarrow> string" where
  "trimASCII s = rev (dropWhile asciiSpace (rev (dropWhile asciiSpace s)))"

definition normalizeSpaces :: "string \<Rightarrow> string" where
  "normalizeSpaces s =
     trimASCII (collapseWhitespace
       (ReplaceAll (ReplaceAll (ReplaceAll s [TAB] [SP]) [LF] [SP]) [CR] [SP]))"

definition unifyLineEnds :: "string \<Rightarrow> string" where
  "unifyLineEnds s = ReplaceAll (ReplaceAll s [CR, LF] [LF]) [CR] [LF]"

text \<open>The documented cap of each validator, and the pattern map its loop ranges over.\<close>

fun capOf :: "ParamValidator \<Rightarrow> nat" where
  "capOf IDValidator = 100"
| "capOf NameValidator = 500"
| "capOf GenericValidator = 2000"
| "capOf DescriptionValidator = 10000"

fun patternsOf :: "ParamValidator \<Rightarrow> patterns" where
  "patternsOf IDValidator = []"
| "patternsOf NameValidator = NamePatterns"
| "patternsOf GenericValidator = GenericPatterns"
| "patternsOf DescriptionValidator = DescriptionPatterns"

text \<open>
  The template as the specification sees it: \<open>splitOn c s\<close> is the list of the pieces of
  literal text of \<open>s\<close> between its occurrences of \<open>c\<close> (one more than there are
  occurrences), and \<open>weave\<close> puts one substitute between each two consecutive pieces.
\<close>

fun splitOn :: "char \<Rightarrow> string \<Rightarrow> string list" where
  "splitOn c [] = [[]]"
| "splitOn c (x # xs) =
     (if x = c then [] # splitOn c xs
      else (case splitOn c xs of [] \<Rightarrow> [[x]] | piece # pieces \<Rightarrow> (x # piece) # pieces))"

fun weave :: "string list \<Rightarrow> string list \<Rightarrow> string" where
  "weave [] lits = []"
| "weave (s # ss) [] = s"
| "weave (s # ss) (l # lits) = s @ l @ weave ss lits"

text \<open>
  The expander as the specification describes it: the placeholders are met left to right,
  each consumes the next unused value and is replaced by its literal; a placeholder with
  no value left fails at once, values left over fail after the scan. The arguments are
  the pieces after the placeholders still to come, the values not yet used, the index of
  the next value and the output so far.
\<close>

fun expandPieces ::
  "lib \<Rightarrow> (nat \<Rightarrow> sched) \<Rightarrow> nat \<Rightarrow> string list \<Rightarrow> val list \<Rightarrow> string \<Rightarrow> string result" where
  "expandPieces L schs i [] [] out = Some (Inr out)"
| "expandPieces L schs i [] (v # vs) out = Some (Inl MoreValues)"
| "expandPieces L schs i (s # ss) [] out = Some (Inl MorePlaceholders)"
| "expandPieces L schs i (s # ss) (v # vs) out =
     (case literal L (schs i) v of
        None \<Rightarrow> None
      | Some (Inl err) \<Rightarrow> Some (Inl err)
      | Some (Inr lit) \<Rightarrow> expandPieces L schs (i + 1) ss vs (out @ lit @ s))"

text \<open>The visiting order that is the order of the listing, at every call.\<close>

definition listingOrder :: "nat \<Rightarrow> sched" where
  "listingOrder i m = m"

section \<open>Definitions used in the proofs\<close>

text \<open>The replacement of one byte \<open>c\<close> by \<open>new\<close>, as it acts on a single byte.\<close>

definition subst1 :: "char \<Rightarrow> string \<Rightarrow> char \<Rightarrow> string" where
  "subst1 c new x = (if x = c then new else [x])"

text \<open>
  The texts that the Generic validator can pass through on the input
  \<open>'; DROP TABLE users;--\<close>: \<open>d\<close> says that the statement starter has been neutralized,
  \<open>c\<close> that the comment marker has.
\<close>

definition dropTableStates :: "bool \<Rightarrow> bool \<Rightarrow> string" where
  "dropTableStates d c =
     [sq] @ (if d then ''; drop_table'' else ''; DROP TABLE'') @ '' users;''
       @ (if c then ''__'' else ''--'')"

text \<open>
  For the Name blocklist. \<open>overlaps q r\<close>: an occurrence of \<open>q\<close> can share bytes with an
  occurrence of \<open>r\<close> (an end of \<open>q\<close> is a start of \<open>r\<close>, a start of \<open>q\<close> is an end of \<open>r\<close>, or
  one occurs in the other). \<open>keepsRuns (p, r)\<close>: the replacement \<open>r\<close> has an underscore,
  and cut at its underscores it consists of pieces of \<open>p\<close>, the first at the start of \<open>p\<close>
  and the last at its end. \<open>replacePlain\<close> is the pass of the patterns over text that is
  in lower case already.
\<close>

definition overlaps :: "string \<Rightarrow> string \<Rightarrow> bool" where
  "overlaps q r =
     (list_ex (\<lambda>w. w \<noteq> [] \<and> HasPrefix r w) (suffixes q)
      \<or> list_ex (\<lambda>w. w \<noteq> [] \<and> HasPrefix (rev r) (rev w)) (prefixes q)
      \<or> Contains q r \<or> Contains r q)"

definition keepsRuns :: "string \<times> string \<Rightarrow> bool" where
  "keepsRuns pr =
     (let runs = splitOn (CHR ''_'') (snd pr) in
      2 \<le> length runs \<and> HasPrefix (fst pr) (hd runs)
      \<and> HasPrefix (rev (fst pr)) (rev (last runs))
      \<and> list_all (Contains (fst pr)) runs)"

definition replacePlain :: "patterns \<Rightarrow> string \<Rightarrow> string" where
  "replacePlain ps u = fold (\<lambda>(p, r) t. replaceNonEmpty t p r) ps u"

text \<open>
  The thirteen patterns of the Name blocklist that the pass removes on their own; every
  other pattern whose replacement does not contain it contains one of these.
\<close>

definition removedCheck :: "string \<times> string \<Rightarrow> bool" where
  "removedCheck pr =
     (fst pr \<noteq> [] \<and> \<not> overlaps (fst pr) (snd pr)
      \<and> (CHR ''_'' \<notin> set (fst pr) \<or> list_all (\<lambda>pr'. \<not> overlaps (fst pr) (snd pr')) NamePatterns))"

definition removedPatterns :: patterns where
  "removedPatterns =
     [(''union select'', ''union_select''),
      (''union all select'', ''union_all_select''),
      ('' or '', ''_or_''),
      ('' and '', ''_and_''),
      ([sq] @ ''; drop table'', [sq] @ ''; drop_table''),
      ([sq] @ ''; delete from'', [sq] @ ''; delete_from''),
      ([sq] @ ''; insert into'', [sq] @ ''; insert_into''),
      ([sq] @ ''; update set'', [sq] @ ''; update_set''),
      (''/*'', ''/_*''),
      (''*/'', ''*_/''),
      (''--'', ''__''),
      (''xp_cmdshell'', ''xp_cmd_shell''),
      (''sp_executesql'', ''sp_execute_sql'')]"

section \<open>quoteString: proofs\<close>

lemma replaceNonEmpty_single:
  "replaceNonEmpty s [c] new = concat (map (subst1 c new) s)"
proof (induction s)
  case Nil
  show ?case by (simp add: replaceNonEmpty.simps)
next
  case (Cons x xs)
  show ?case
  proof (cases "x = c")
    case True
    then show ?thesis
      by (subst replaceNonEmpty.simps) (simp add: Cons.IH subst1_def [of c new c])
  next
    case False
    then show ?thesis
      by (subst replaceNonEmpty.simps) (simp add: Cons.IH subst1_def [of c new x])
  qed
qed

lemma ReplaceAll_single: "ReplaceAll s [c] new = concat (map (subst1 c new) s)"
  by (simp add: ReplaceAll_def replaceNonEmpty_single)

lemma ReplaceAll_single_concat:
  "ReplaceAll (concat (map f s)) [c] new = concat (map (\<lambda>x. concat (map (subst1 c new) (f x))) s)"
  by (induction s) (simp_all add: ReplaceAll_single)

lemma escape_chain:
  "concat (map (subst1 CtrlZ [bsl, CHR ''Z'']) (concat (map (subst1 NUL [bsl, CHR ''0''])
     (concat (map (subst1 TAB [bsl, CHR ''t'']) (concat (map (subst1 CR [bsl, CHR ''r''])
     (concat (map (subst1 LF [bsl, CHR ''n'']) (concat (map (subst1 dq [bsl, dq])
     (concat (map (subst1 sq [sq, sq]) (subst1 bsl [bsl, bsl] x)))))))))))))) = escapeByte x"
  by (simp add: subst1_def escapeByte_def)

lemma quoteString_bytewise: "quoteString s = [sq] @ concat (map escapeByte s) @ [sq]"
proof -
  have first: "ReplaceAll s [bsl] [bsl, bsl] = concat (map (subst1 bsl [bsl, bsl]) s)"
    by (rule ReplaceAll_single)
  show ?thesis
    unfolding quoteString_def Let_def first ReplaceAll_single_concat escape_chain ..
qed

lemma escapeByte_no_control:
  "c \<in> set (escapeByte x) \<Longrightarrow> c \<noteq> LF \<and> c \<noteq> CR \<and> c \<noteq> TAB \<and> c \<noteq> NUL \<and> c \<noteq> CtrlZ"
  by (auto simp: escapeByte_def split: if_splits)

section \<open>The pattern loop on ASCII text; termination\<close>


lemma HasPrefix_iff: "HasPrefix s p \<longleftrightarrow> prefix p s"
  by (induction s p rule: HasPrefix.induct) auto

lemma Index_None_iff: "Index s sub = None \<longleftrightarrow> \<not> sublist sub s"
proof (induction s)
  case Nil
  show ?case by simp
next
  case (Cons c cs)
  show ?case
    using Cons.IH by (auto simp: HasPrefix_iff sublist_Cons_right)
qed

lemma Contains_iff: "Contains s sub \<longleftrightarrow> sublist sub s"
  by (simp add: Contains_def Index_None_iff)



lemma Index_None_neutralize:
  "Index (map lowerByte s) (map lowerByte old) = None \<Longrightarrow> neutralizeOne s old new = s"
proof (induction s)
  case Nil
  show ?case by (simp add: neutralizeOne.simps)
next
  case (Cons c cs)
  from Cons.prems have np: "\<not> prefix (map lowerByte old) (map lowerByte (c # cs))"
    and rest: "Index (map lowerByte cs) (map lowerByte old) = None"
    by (auto simp: HasPrefix_iff split: if_splits)
  show ?case
    using np Cons.IH [OF rest] by (subst neutralizeOne.simps) simp
qed

lemma Index_Some_neutralize:
  "Index (map lowerByte s) (map lowerByte old) = Some i \<Longrightarrow> old \<noteq> [] \<Longrightarrow>
   neutralizeOne s old new = take i s @ new @ neutralizeOne (drop (i + length old) s) old new"
proof (induction s arbitrary: i)
  case Nil
  then show ?case by (simp split: if_splits)
next
  case (Cons c cs)
  show ?case
  proof (cases "prefix (map lowerByte old) (map lowerByte (c # cs))")
    case True
    with Cons.prems have "i = 0" by (simp add: HasPrefix_iff)
    with True Cons.prems show ?thesis
      by (subst neutralizeOne.simps) simp
  next
    case False
    with Cons.prems obtain j where j: "Index (map lowerByte cs) (map lowerByte old) = Some j" "i = Suc j"
      by (auto simp: HasPrefix_iff)
    from False Cons.IH [OF j(1) Cons.prems(2)] j(2) Cons.prems(2) show ?thesis
      by (subst neutralizeOne.simps) simp
  qed
qed

lemma Index_le: "Index s sub = Some i \<Longrightarrow> i + length sub \<le> length s"
proof (induction s arbitrary: i)
  case Nil
  then show ?case by (simp split: if_splits)
next
  case (Cons c cs)
  then show ?case
    by (auto simp: HasPrefix_iff split: if_splits dest: prefix_length_le)
qed

lemma replaceLoop_aligned:
  assumes "old \<noteq> []"
  shows "lastEnd \<le> length s \<Longrightarrow>
    replaceLoop s (map lowerByte s) (map lowerByte old) (length old) new lastEnd res
      = Some (Inr (res @ neutralizeOne (drop lastEnd s) old new))"
proof (induction "length s - lastEnd" arbitrary: lastEnd res rule: less_induct)
  case less
  show ?case
  proof (cases "Index (drop lastEnd (map lowerByte s)) (map lowerByte old)")
    case None
    then have "neutralizeOne (drop lastEnd s) old new = drop lastEnd s"
      using Index_None_neutralize [of "drop lastEnd s" old new] by (simp add: drop_map)
    with None less.prems show ?thesis
      by (subst replaceLoop.simps) simp
  next
    case (Some index)
    then have I: "Index (map lowerByte (drop lastEnd s)) (map lowerByte old) = Some index"
      by (simp add: drop_map)
    from Index_le [OF I] have le: "lastEnd + index + length old \<le> length s"
      using less.prems by simp
    have pos: "0 < length old" using assms by simp
    have step: "replaceLoop s (map lowerByte s) (map lowerByte old) (length old) new
                 (lastEnd + index + length old) (res @ take index (drop lastEnd s) @ new)
          = Some (Inr ((res @ take index (drop lastEnd s) @ new)
                   @ neutralizeOne (drop (lastEnd + index + length old) s) old new))"
      using le pos by (intro less.hyps) (auto simp: length_greater_0_conv [symmetric] simp del: length_greater_0_conv)
    have "neutralizeOne (drop lastEnd s) old new
          = take index (drop lastEnd s) @ new @ neutralizeOne (drop (index + length old) (drop lastEnd s)) old new"
      by (rule Index_Some_neutralize [OF I assms])
    then show ?thesis
      using Some le step by (subst replaceLoop.simps) (simp add: add.commute add.left_commute)
  qed
qed



lemma isASCII_append [simp]: "isASCII (a @ b) \<longleftrightarrow> isASCII a \<and> isASCII b"
  by (simp add: isASCII_def)

lemma isASCII_Cons [simp]: "isASCII (c # cs) \<longleftrightarrow> byte c < 0x80 \<and> isASCII cs"
  by (simp add: isASCII_def)

lemma isASCII_Nil [simp]: "isASCII []"
  by (simp add: isASCII_def)

lemma isASCII_take: "isASCII s \<Longrightarrow> isASCII (take n s)"
  by (auto simp: isASCII_def list_all_iff dest: in_set_takeD)

lemma isASCII_drop: "isASCII s \<Longrightarrow> isASCII (drop n s)"
  by (auto simp: isASCII_def list_all_iff dest: in_set_dropD)

lemma ToLower_ascii: "isASCII s \<Longrightarrow> ToLower L s = map lowerByte s"
  by (simp add: ToLower_def)

lemma isASCII_neutralizeOne:
  "isASCII s \<Longrightarrow> isASCII new \<Longrightarrow> isASCII (neutralizeOne s old new)"
proof (induction s old new rule: neutralizeOne.induct)
  case (1 s old new)
  show ?case
  proof (cases "s = [] \<or> old = []")
    case True
    with 1 show ?thesis by (subst neutralizeOne.simps) simp
  next
    case False
    then obtain c cs where s: "s = c # cs" by (cases s) auto
    show ?thesis
    proof (cases "prefix (map lowerByte old) (map lowerByte s)")
      case True
      with False 1 show ?thesis
        by (subst neutralizeOne.simps) (simp add: isASCII_drop)
    next
      case np: False
      with False 1 s show ?thesis
        by (subst neutralizeOne.simps) simp
    qed
  qed
qed

lemma replaceCaseInsensitive_ascii:
  assumes "isASCII s" "isASCII old" "old \<noteq> []"
  shows "replaceCaseInsensitive L s old new = Some (Inr (neutralizeOne s old new))"
  using replaceLoop_aligned [OF assms(3), of 0 s new "[]"] assms
  by (simp add: replaceCaseInsensitive_def ToLower_ascii)

lemma rangePatterns_ascii:
  "list_all okPattern ps \<Longrightarrow> isASCII s \<Longrightarrow>
   rangePatterns L ps (ToLower L s) s = Some (Inr (neutralizeAll ps s))"
proof (induction ps arbitrary: s)
  case Nil
  show ?case by (simp add: neutralizeAll_def)
next
  case (Cons pr ps)
  obtain p r where pr: "pr = (p, r)" by (cases pr)
  from Cons.prems pr have okp: "okPattern (p, r)" and rest: "list_all okPattern ps"
    by simp_all
  from okp have ok: "p \<noteq> []" "isASCII p" "map lowerByte p = p" "isASCII r"
    by (simp_all add: okPattern_def)
  show ?case
  proof (cases "Contains (ToLower L s) p")
    case True
    have rci: "replaceCaseInsensitive L s p r = Some (Inr (neutralizeOne s p r))"
      using Cons.prems(2) ok by (intro replaceCaseInsensitive_ascii)
    have asc: "isASCII (neutralizeOne s p r)"
      using Cons.prems(2) ok(4) by (rule isASCII_neutralizeOne)
    show ?thesis
      using True rci Cons.IH [OF rest asc] by (simp add: pr neutralizeAll_def)
  next
    case False
    then have "Index (map lowerByte s) (map lowerByte p) = None"
      using Cons.prems(2) ok(3) by (simp add: Contains_def ToLower_ascii)
    then have "neutralizeOne s p r = s"
      by (rule Index_None_neutralize)
    then show ?thesis
      using False Cons.IH [OF rest Cons.prems(2)] by (simp add: pr neutralizeAll_def)
  qed
qed

lemma replaceLoop_returns:
  "0 < oldLen \<Longrightarrow> replaceLoop s sLower oldLower oldLen new lastEnd res \<noteq> None"
proof (induction "Suc (length sLower) - lastEnd" arbitrary: lastEnd res rule: less_induct)
  case less
  show ?case
  proof (cases "length sLower < lastEnd")
    case True
    then show ?thesis by (subst replaceLoop.simps) simp
  next
    case False
    show ?thesis
    proof (cases "Index (drop lastEnd sLower) oldLower")
      case None
      with False show ?thesis by (subst replaceLoop.simps) simp
    next
      case (Some index)
      have "replaceLoop s sLower oldLower oldLen new (lastEnd + index + oldLen)
              (res @ take index (drop lastEnd s) @ new) \<noteq> None"
        using False less.prems by (intro less.hyps) auto
      with Some False show ?thesis by (subst replaceLoop.simps) simp
    qed
  qed
qed

lemma replaceCaseInsensitive_returns:
  "old \<noteq> [] \<Longrightarrow> replaceCaseInsensitive L s old new \<noteq> None"
  by (simp add: replaceCaseInsensitive_def replaceLoop_returns)

lemma rangePatterns_returns:
  "list_all (\<lambda>pr. fst pr \<noteq> []) ps \<Longrightarrow> rangePatterns L ps lower res \<noteq> None"
proof (induction ps arbitrary: lower res)
  case Nil
  show ?case by simp
next
  case (Cons pr ps)
  obtain p r where pr: "pr = (p, r)" by (cases pr)
  from Cons.prems pr have ne: "p \<noteq> []" and rest: "list_all (\<lambda>pr. fst pr \<noteq> []) ps" by simp_all
  show ?case
    using replaceCaseInsensitive_returns [OF ne, of L res r] Cons.IH [OF rest]
    by (auto simp: pr split: option.splits sum.splits)
qed

lemma ok_Name: "list_all okPattern NamePatterns"
  by (simp add: NamePatterns_def okPattern_def lowerByte_def)
lemma ok_Generic: "list_all okPattern GenericPatterns"
  by (simp add: GenericPatterns_def okPattern_def lowerByte_def)
lemma ok_Description: "list_all okPattern DescriptionPatterns"
  by (simp add: DescriptionPatterns_def okPattern_def lowerByte_def)
lemma ok_sanitize: "list_all okPattern sanitizePatterns"
  by (simp add: sanitizePatterns_def okPattern_def lowerByte_def)

lemma visitsOnce_list_all: "visitsOnce sch m \<Longrightarrow> list_all P (sch m) = list_all P m"
  by (auto simp: visitsOnce_def list_all_iff dest: mset_eq_setD)


section \<open>Code points and the allow-list\<close>

lemma isIDByte_iff: "isIDByte c \<longleftrightarrow> isIDRune (byte c)"
proof (cases c)
  case (Char b0 b1 b2 b3 b4 b5 b6 b7)
  show ?thesis
    unfolding Char isIDByte_def idAlphabet_def isIDRune_def
    by (cases b0; cases b1; cases b2; cases b3; cases b4; cases b5; cases b6; cases b7; simp)
qed

lemma isIDRune_small: "isIDRune r \<Longrightarrow> r < 128"
  by (auto simp: isIDRune_def)

lemma byte_less_256: "byte c < 256"
  by (cases c) simp

lemma DecodeRune_ascii: "byte c < 0x80 \<Longrightarrow> DecodeRune (c # cs) = (byte c, 1)"
  by simp

lemma mod_window:
  fixes b :: nat
  assumes "q * m \<le> b" "b < q * m + m"
  shows "b mod m = b - q * m"
proof -
  have "b = (b - q * m) + q * m" using assms by simp
  then have "b mod m = ((b - q * m) + q * m) mod m" by simp
  also have "\<dots> = (b - q * m) mod m" by simp
  also have "\<dots> = b - q * m" using assms by simp
  finally show ?thesis .
qed

lemma rune2_high:
  fixes b0 :: nat
  shows "0xC2 \<le> b0 \<Longrightarrow> b0 \<le> 0xDF \<Longrightarrow> 128 \<le> (b0 mod 0x20) * 0x40 + x"
proof -
  assume "0xC2 \<le> b0" "b0 \<le> 0xDF"
  then have "2 \<le> b0 mod 0x20" using mod_window [of 6 32 b0] by simp
  then show ?thesis by simp
qed

lemma rune3_high:
  fixes b0 b1 :: nat
  assumes "0xE0 \<le> b0" "b0 \<le> 0xEF" "(if b0 = 0xE0 then 0xA0 else 0x80) \<le> b1" "b1 \<le> 0xBF"
  shows "128 \<le> (b0 mod 0x10) * 0x1000 + (b1 mod 0x40) * 0x40 + x"
proof (cases "b0 = 0xE0")
  case True
  with assms have "0xA0 \<le> b1" "b1 \<le> 0xBF" by simp_all
  then have "32 \<le> b1 mod 0x40" using mod_window [of 2 64 b1] by simp
  then show ?thesis by simp
next
  case False
  with assms have "0xE1 \<le> b0" "b0 \<le> 0xEF" by simp_all
  then have "1 \<le> b0 mod 0x10" using mod_window [of 14 16 b0] by simp
  then show ?thesis by simp
qed

lemma rune4_high:
  fixes b0 b1 :: nat
  assumes "0xF0 \<le> b0" "b0 \<le> 0xF4" "(if b0 = 0xF0 then 0x90 else 0x80) \<le> b1" "b1 \<le> 0xBF"
  shows "128 \<le> (b0 mod 0x08) * 0x40000 + (b1 mod 0x40) * 0x1000 + x + y"
proof (cases "b0 = 0xF0")
  case True
  with assms have "0x90 \<le> b1" "b1 \<le> 0xBF" by simp_all
  then have "16 \<le> b1 mod 0x40" using mod_window [of 2 64 b1] by simp
  then show ?thesis by simp
next
  case False
  with assms have "0xF1 \<le> b0" "b0 \<le> 0xF4" by simp_all
  then have "1 \<le> b0 mod 0x08" using mod_window [of 30 8 b0] by simp
  then show ?thesis by simp
qed

lemma DecodeRune_high:
  assumes h: "0x80 \<le> byte c"
  shows "128 \<le> fst (DecodeRune (c # cs))"
proof -
  have nl: "\<not> byte c < 0x80" using h by simp
  consider (two) "0xC2 \<le> byte c" "byte c \<le> 0xDF"
    | (three) "0xE0 \<le> byte c" "byte c \<le> 0xEF"
    | (four) "0xF0 \<le> byte c" "byte c \<le> 0xF4"
    | (bad) "\<not> (0xC2 \<le> byte c \<and> byte c \<le> 0xDF)" "\<not> (0xE0 \<le> byte c \<and> byte c \<le> 0xEF)"
            "\<not> (0xF0 \<le> byte c \<and> byte c \<le> 0xF4)"
    by linarith
  then show ?thesis
  proof cases
    case two
    have eq: "\<And>cs. DecodeRune (c # cs) =
       (case cs of c1 # _ \<Rightarrow> if isCont (byte c1) then ((byte c mod 0x20) * 0x40 + byte c1 mod 0x40, 2)
             else (RuneError, 1) | _ \<Rightarrow> (RuneError, 1))"
      by (simp only: DecodeRune.simps Let_def nl two if_False if_True simp_thms)
    show ?thesis
      unfolding eq using rune2_high [OF two]
      by (cases cs) (simp_all add: RuneError_def)
  next
    case three
    have n2: "\<not> (0xC2 \<le> byte c \<and> byte c \<le> 0xDF)" using three by simp
    have eq: "\<And>cs. DecodeRune (c # cs) =
       (case cs of
           c1 # c2 # _ \<Rightarrow>
             if (if byte c = 0xE0 then 0xA0 else 0x80) \<le> byte c1
                \<and> byte c1 \<le> (if byte c = 0xED then 0x9F else 0xBF)
                \<and> isCont (byte c2)
             then ((byte c mod 0x10) * 0x1000 + (byte c1 mod 0x40) * 0x40 + byte c2 mod 0x40, 3)
             else (RuneError, 1)
         | _ \<Rightarrow> (RuneError, 1))"
      by (simp only: DecodeRune.simps Let_def nl n2 three if_False if_True simp_thms)
    show ?thesis
    proof (cases cs)
      case Nil
      then show ?thesis unfolding eq by (simp add: RuneError_def)
    next
      case (Cons c1 cs1)
      show ?thesis
      proof (cases cs1)
        case Nil
        with Cons show ?thesis unfolding eq by (simp add: RuneError_def)
      next
        case (Cons c2 cs2)
        show ?thesis
        proof (cases "(if byte c = 0xE0 then 0xA0 else 0x80) \<le> byte c1
                \<and> byte c1 \<le> (if byte c = 0xED then 0x9F else 0xBF) \<and> isCont (byte c2)")
          case True
          then have a: "(if byte c = 0xE0 then 0xA0 else 0x80) \<le> byte c1" and b: "byte c1 \<le> 0xBF"
            by (simp_all split: if_splits)
          have "DecodeRune (c # cs) =
             ((byte c mod 0x10) * 0x1000 + (byte c1 mod 0x40) * 0x40 + byte c2 mod 0x40, 3)"
            unfolding \<open>cs = c1 # cs1\<close> \<open>cs1 = c2 # cs2\<close> by (simp only: eq list.case True if_True simp_thms)
          with rune3_high [OF three a b, of "byte c2 mod 0x40"] show ?thesis
            by (simp only: fst_conv)
        next
          case False
          have "DecodeRune (c # cs) = (RuneError, 1)"
            unfolding \<open>cs = c1 # cs1\<close> \<open>cs1 = c2 # cs2\<close> by (simp only: eq list.case False if_False simp_thms)
          then show ?thesis by (simp add: RuneError_def)
        qed
      qed
    qed
  next
    case four
    have n2: "\<not> (0xC2 \<le> byte c \<and> byte c \<le> 0xDF)" using four by simp
    have n3: "\<not> (0xE0 \<le> byte c \<and> byte c \<le> 0xEF)" using four by simp
    have eq: "\<And>cs. DecodeRune (c # cs) =
        (case cs of
           c1 # c2 # c3 # _ \<Rightarrow>
             if (if byte c = 0xF0 then 0x90 else 0x80) \<le> byte c1
                \<and> byte c1 \<le> (if byte c = 0xF4 then 0x8F else 0xBF)
                \<and> isCont (byte c2) \<and> isCont (byte c3)
             then ((byte c mod 0x08) * 0x40000 + (byte c1 mod 0x40) * 0x1000
                   + (byte c2 mod 0x40) * 0x40 + byte c3 mod 0x40, 4)
             else (RuneError, 1)
         | _ \<Rightarrow> (RuneError, 1))"
      by (simp only: DecodeRune.simps Let_def nl n2 n3 four if_False if_True simp_thms)
    show ?thesis
    proof (cases "\<exists>c1 c2 c3 cs3. cs = c1 # c2 # c3 # cs3")
      case False
      from False show ?thesis unfolding eq
        by (auto simp: RuneError_def split: list.splits)
    next
      case True
      then obtain c1 c2 c3 cs3 where cs: "cs = c1 # c2 # c3 # cs3" by blast
      show ?thesis
      proof (cases "(if byte c = 0xF0 then 0x90 else 0x80) \<le> byte c1
                \<and> byte c1 \<le> (if byte c = 0xF4 then 0x8F else 0xBF)
                \<and> isCont (byte c2) \<and> isCont (byte c3)")
        case True
        then have a: "(if byte c = 0xF0 then 0x90 else 0x80) \<le> byte c1" and b: "byte c1 \<le> 0xBF"
          by (simp_all split: if_splits)
        have "DecodeRune (c # cs) =
           ((byte c mod 0x08) * 0x40000 + (byte c1 mod 0x40) * 0x1000
                   + (byte c2 mod 0x40) * 0x40 + byte c3 mod 0x40, 4)"
          unfolding cs by (simp only: eq list.case True if_True simp_thms)
        with rune4_high [OF four a b, of "(byte c2 mod 0x40) * 0x40" "byte c3 mod 0x40"] show ?thesis
          by (simp only: fst_conv)
      next
        case False
        have "DecodeRune (c # cs) = (RuneError, 1)"
          unfolding cs by (simp only: eq list.case False if_False simp_thms)
        then show ?thesis by (simp add: RuneError_def)
      qed
    qed
  next
    case bad
    have "DecodeRune (c # cs) = (RuneError, 1)"
      by (simp only: DecodeRune.simps Let_def nl bad if_False if_True simp_thms)
    then show ?thesis by (simp add: RuneError_def)
  qed
qed

lemma runes_Nil [simp]: "runes [] = []"
  by (simp add: runes.simps)

lemma runes_ascii_Cons: "byte c < 0x80 \<Longrightarrow> runes (c # cs) = byte c # runes cs"
  by (subst runes.simps) simp

lemma runes_allID: "list_all isIDRune (runes s) \<longleftrightarrow> (\<forall>c\<in>set s. isIDByte c)"
proof (induction s)
  case Nil
  show ?case by simp
next
  case (Cons c cs)
  show ?case
  proof (cases "byte c < 0x80")
    case True
    then show ?thesis
      using Cons.IH by (simp add: runes_ascii_Cons isIDByte_iff)
  next
    case False
    then have "128 \<le> fst (DecodeRune (c # cs))"
      by (intro DecodeRune_high) simp
    then have "\<not> isIDRune (fst (DecodeRune (c # cs)))"
      using isIDRune_small by fastforce
    moreover have "\<not> isIDByte c"
      using False isIDRune_small [of "byte c"] by (auto simp: isIDByte_iff)
    ultimately show ?thesis
      by (subst runes.simps) simp
  qed
qed

lemma char_of_byte [simp]: "char_of (byte c) = c"
  by simp

lemma idSubst_eq: "(if isIDRune r then char_of r else CHR ''_'') = idSubst r"
proof (cases "r < 128")
  case True
  then have "byte (char_of r :: char) = r" by simp
  then show ?thesis using True by (simp add: idSubst_def isIDByte_iff)
next
  case False
  then show ?thesis using isIDRune_small [of r] by (auto simp: idSubst_def)
qed

lemma isIDByte_idSubst: "isIDByte (idSubst r)"
  by (simp add: idSubst_def) (simp add: isIDByte_def idAlphabet_def)

lemma limitLen_take: "limitLen n s = take n s"
  by (simp add: limitLen_def)

lemma Contains_single: "Contains s [c] \<longleftrightarrow> c \<in> set s"
  by (induction s) (auto simp: Contains_def)

lemma list_ex_Contains: "list_ex (Contains s) ps \<longleftrightarrow> (\<exists>p\<in>set ps. sublist p s)"
  by (simp add: list_ex_iff Contains_iff)

section \<open>Errors, the registry and literals of strings\<close>

lemma replaceLoop_error:
  assumes "replaceLoop s sLower oldLower oldLen new lastEnd res = Some (Inl e)"
  shows "e = Panic"
proof -
  define P :: "string \<Rightarrow> string \<Rightarrow> string \<Rightarrow> nat \<Rightarrow> string \<Rightarrow> nat \<Rightarrow> string \<Rightarrow> error + string \<Rightarrow> bool"
    where "P = (\<lambda>s sLower oldLower oldLen new lastEnd res y. \<forall>e. y = Inl e \<longrightarrow> e = Panic)"
  have "P s sLower oldLower oldLen new lastEnd res (Inl e)"
  proof (rule replaceLoop.raw_induct [where P = P, OF _ assms])
    fix f s sLower oldLower oldLen new lastEnd res y
    assume IH: "\<And>s sLower oldLower oldLen new lastEnd res y.
        f s sLower oldLower oldLen new lastEnd res = Some y \<Longrightarrow>
        P s sLower oldLower oldLen new lastEnd res y"
      and eq: "(if length sLower < lastEnd then Some (Inl Panic)
      else case Index (drop lastEnd sLower) oldLower of
           None \<Rightarrow>
             if length s < lastEnd then Some (Inl Panic)
             else Some (Inr (res @ drop lastEnd s))
           | Some index \<Rightarrow>
               if length s < lastEnd + index then Some (Inl Panic)
               else f s sLower oldLower oldLen new
                     (lastEnd + index + oldLen)
                     (res @ take index (drop lastEnd s) @ new)) = Some y"
    show "P s sLower oldLower oldLen new lastEnd res y"
    proof (cases "length sLower < lastEnd")
      case True
      with eq show ?thesis by (auto simp: P_def)
    next
      case l: False
      show ?thesis
      proof (cases "Index (drop lastEnd sLower) oldLower")
        case None
        with eq l show ?thesis by (auto simp: P_def split: if_splits)
      next
        case (Some index)
        show ?thesis
        proof (cases "length s < lastEnd + index")
          case True
          with eq l Some show ?thesis by (auto simp: P_def)
        next
          case False
          with eq l Some have "f s sLower oldLower oldLen new (lastEnd + index + oldLen)
                     (res @ take index (drop lastEnd s) @ new) = Some y" by simp
          from IH [OF this] show ?thesis by (simp add: P_def)
        qed
      qed
    qed
  qed
  then show ?thesis by (simp add: P_def)
qed

lemma rangePatterns_error:
  "rangePatterns L ps lower res = Some (Inl e) \<Longrightarrow> e = Panic"
proof (induction ps arbitrary: lower res)
  case Nil
  then show ?case by simp
next
  case (Cons pr ps)
  obtain p r where pr: "pr = (p, r)" by (cases pr)
  show ?case
  proof (cases "Contains lower p")
    case False
    with Cons pr show ?thesis by simp
  next
    case True
    show ?thesis
    proof (cases "replaceCaseInsensitive L res p r")
      case None
      with True Cons.prems pr show ?thesis by simp
    next
      case (Some y)
      show ?thesis
      proof (cases y)
        case (Inl e')
        with Some have "e' = Panic"
          by (auto simp: replaceCaseInsensitive_def dest: replaceLoop_error)
        with Inl Some True Cons.prems pr show ?thesis by simp
      next
        case (Inr res')
        with Some True Cons.prems pr have "rangePatterns L ps (ToLower L res') res' = Some (Inl e)"
          by simp
        then show ?thesis by (rule Cons.IH)
      qed
    qed
  qed
qed

lemma mapResult_simps [simp]:
  "mapResult f None = None"
  "mapResult f (Some (Inl e)) = Some (Inl e)"
  "mapResult f (Some (Inr x)) = Some (Inr (f x))"
  by (simp_all add: mapResult_def)

lemma mapResult_cases:
  "mapResult f r = None \<longleftrightarrow> r = None"
  "mapResult f r = Some (Inl e) \<longleftrightarrow> r = Some (Inl e)"
  "mapResult f r = Some (Inr y) \<longleftrightarrow> (\<exists>x. r = Some (Inr x) \<and> y = f x)"
  by (auto simp: mapResult_def split: option.splits sum.splits)

lemma DescriptionValidator_error:
  "DescriptionValidator_Validate L sch s = Some (Inl e) \<Longrightarrow> e = Panic"
  unfolding DescriptionValidator_Validate_def Let_def mapResult_cases
  by (rule rangePatterns_error)

lemma GenericValidator_error:
  "GenericValidator_Validate L sch s = Some (Inl e) \<Longrightarrow> e = Panic"
  unfolding GenericValidator_Validate_def Let_def mapResult_cases
  by (rule rangePatterns_error)

lemma NameValidator_error:
  "NameValidator_Validate L sch s = Some (Inl e) \<Longrightarrow> e = Panic"
  unfolding NameValidator_Validate_def Let_def mapResult_cases
  by (rule rangePatterns_error)

lemma Validate_error: "Validate L sch v s = Some (Inl e) \<Longrightarrow> e = Panic"
  by (cases v)
     (simp_all add: DescriptionValidator_error GenericValidator_error NameValidator_error)

lemma validators_global:
  "validators globalProcessor =
     [ParamTypeID \<mapsto> IDValidator, ParamTypeName \<mapsto> NameValidator,
      ParamTypeDescription \<mapsto> DescriptionValidator, ParamTypeGeneric \<mapsto> GenericValidator]"
  by (simp add: globalProcessor_def NewTypeAwareProcessor_def RegisterValidator_def Let_def)

lemma ParamType_distinct:
  "ParamTypeGeneric \<noteq> ParamTypeID" "ParamTypeGeneric \<noteq> ParamTypeName"
  "ParamTypeGeneric \<noteq> ParamTypeDescription" "ParamTypeID \<noteq> ParamTypeName"
  "ParamTypeID \<noteq> ParamTypeDescription" "ParamTypeName \<noteq> ParamTypeDescription"
  by (simp_all add: ParamTypeGeneric_def ParamTypeID_def ParamTypeName_def ParamTypeDescription_def)

lemma GetValidator_global:
  "GetValidator globalProcessor ParamTypeID = Some IDValidator"
  "GetValidator globalProcessor ParamTypeName = Some NameValidator"
  "GetValidator globalProcessor ParamTypeDescription = Some DescriptionValidator"
  "GetValidator globalProcessor ParamTypeGeneric = Some GenericValidator"
  using ParamType_distinct by (simp_all add: GetValidator_def validators_global)

lemma GetValidator_global_other:
  "t \<noteq> ParamTypeID \<Longrightarrow> t \<noteq> ParamTypeName \<Longrightarrow> t \<noteq> ParamTypeDescription \<Longrightarrow>
   GetValidator globalProcessor t = Some GenericValidator"
  by (simp add: GetValidator_def validators_global)

lemma GetValidator_global_Some: "\<exists>v. GetValidator globalProcessor t = Some v"
  using GetValidator_global GetValidator_global_other [of t] by (cases "t = ParamTypeID \<or> t = ParamTypeName \<or> t = ParamTypeDescription") auto

lemma InferType_range:
  "InferType s = ParamTypeGeneric \<or> InferType s = ParamTypeID
   \<or> InferType s = ParamTypeName \<or> InferType s = ParamTypeDescription"
  by (simp add: InferType_def)

lemma InferType_validator:
  "\<exists>v. GetValidator globalProcessor (InferType s) = Some v \<and> GetType v = InferType s"
  using InferType_range [of s] GetValidator_global by auto

lemma literal_string:
  "GetValidator globalProcessor (InferType s) = Some v \<Longrightarrow>
   literal L sch (VString s) = mapResult quoteString (Validate L sch v s)"
  by (simp add: ProcessString_def)

lemma quoteString_quoted: "\<exists>body. quoteString t = [sq] @ body @ [sq]"
  using quoteString_bytewise by blast

lemma literal_string_outcome:
  "literal L sch (VString s) = None \<or> literal L sch (VString s) = Some (Inl Panic)
   \<or> (\<exists>body. literal L sch (VString s) = Some (Inr ([sq] @ body @ [sq])))"
proof -
  obtain v where v: "GetValidator globalProcessor (InferType s) = Some v"
    using InferType_validator by blast
  note eq = literal_string [OF v, of L sch]
  show ?thesis
  proof (cases "Validate L sch v s")
    case None
    with eq show ?thesis by simp
  next
    case (Some y)
    show ?thesis
    proof (cases y)
      case (Inl e)
      with Some have "e = Panic" by (auto dest: Validate_error)
      with Inl Some eq show ?thesis by simp
    next
      case (Inr t)
      obtain body where "quoteString t = [sq] @ body @ [sq]"
        using quoteString_quoted by blast
      with Inr Some eq show ?thesis by simp
    qed
  qed
qed

section \<open>The validators on ASCII text; the caps\<close>

lemma isASCII_replaceNonEmpty:
  "isASCII s \<Longrightarrow> isASCII new \<Longrightarrow> isASCII (replaceNonEmpty s old new)"
proof (induction s old new rule: replaceNonEmpty.induct)
  case (1 s old new)
  show ?case
  proof (cases "s = [] \<or> old = []")
    case True
    with 1 show ?thesis by (subst replaceNonEmpty.simps) simp
  next
    case False
    then obtain c cs where s: "s = c # cs" by (cases s) auto
    show ?thesis
    proof (cases "HasPrefix s old")
      case True
      with False 1 show ?thesis
        by (subst replaceNonEmpty.simps) (simp add: isASCII_drop)
    next
      case np: False
      with False 1 s show ?thesis
        by (subst replaceNonEmpty.simps) simp
    qed
  qed
qed

lemma isASCII_ReplaceAll:
  "old \<noteq> [] \<Longrightarrow> isASCII s \<Longrightarrow> isASCII new \<Longrightarrow> isASCII (ReplaceAll s old new)"
  by (simp add: ReplaceAll_def isASCII_replaceNonEmpty)

lemma isASCII_collapseRuns: "isASCII s \<Longrightarrow> isASCII (collapseRuns b s)"
  by (induction b s rule: collapseRuns.induct) auto

lemma isASCII_dropWhile: "isASCII s \<Longrightarrow> isASCII (dropWhile P s)"
  by (auto simp: isASCII_def list_all_iff dest: set_dropWhileD)

lemma isASCII_rev [simp]: "isASCII (rev s) = isASCII s"
  by (simp add: isASCII_def list_all_iff)

lemma isASCII_trimASCII: "isASCII s \<Longrightarrow> isASCII (trimASCII s)"
  by (simp add: trimASCII_def isASCII_dropWhile)

lemma isASCII_hd: "isASCII s \<Longrightarrow> s \<noteq> [] \<Longrightarrow> byte (hd s) < 0x80"
  by (cases s) simp_all

lemma TrimSpace_ascii: "isASCII s \<Longrightarrow> TrimSpace L s = trimASCII s"
proof -
  assume a: "isASCII s"
  have c1: "\<not> (dropWhile asciiSpace s \<noteq> [] \<and> 0x80 \<le> byte (hd (dropWhile asciiSpace s)))"
    using isASCII_hd [OF isASCII_dropWhile [OF a], of asciiSpace] by fastforce
  have "isASCII (dropWhile asciiSpace (rev (dropWhile asciiSpace s)))"
    using a by (simp add: isASCII_dropWhile)
  from isASCII_hd [OF this]
  have c2: "\<not> (dropWhile asciiSpace (rev (dropWhile asciiSpace s)) \<noteq> []
      \<and> 0x80 \<le> byte (hd (dropWhile asciiSpace (rev (dropWhile asciiSpace s)))))"
    by fastforce
  show ?thesis
    by (simp only: TrimSpace_def trimASCII_def Let_def c1 c2 if_False)
qed

lemma NFKC_ascii: "isASCII s \<Longrightarrow> NFKC L s = s"
  by (simp add: NFKC_def)

lemma isASCII_normalizeSpaces: "isASCII s \<Longrightarrow> isASCII (normalizeSpaces s)"
  by (simp add: normalizeSpaces_def isASCII_trimASCII collapseWhitespace_def isASCII_collapseRuns
        isASCII_ReplaceAll)

lemma isASCII_unifyLineEnds: "isASCII s \<Longrightarrow> isASCII (unifyLineEnds s)"
  by (simp add: unifyLineEnds_def isASCII_ReplaceAll)

lemma visitsOnce_ok: "visitsOnce sch m \<Longrightarrow> list_all okPattern m \<Longrightarrow> list_all okPattern (sch m)"
  by (simp add: visitsOnce_list_all)

lemma NameValidator_ascii:
  assumes "isASCII s" "visitsOnce sch NamePatterns"
  shows "NameValidator_Validate L sch s
         = Some (Inr (take 500 (neutralizeAll (sch NamePatterns) (normalizeSpaces s))))"
proof -
  have pre: "TrimSpace L (collapseWhitespace (ReplaceAll (ReplaceAll (ReplaceAll (NFKC L s) [TAB] [SP]) [LF] [SP]) [CR] [SP]))
        = normalizeSpaces s"
    using assms(1)
    by (simp add: NFKC_ascii normalizeSpaces_def TrimSpace_ascii collapseWhitespace_def
          isASCII_collapseRuns isASCII_ReplaceAll)
  have "rangePatterns L (sch NamePatterns) (ToLower L (normalizeSpaces s)) (normalizeSpaces s)
        = Some (Inr (neutralizeAll (sch NamePatterns) (normalizeSpaces s)))"
    by (rule rangePatterns_ascii [OF visitsOnce_ok [OF assms(2) ok_Name] isASCII_normalizeSpaces [OF assms(1)]])
  then show ?thesis
    by (simp add: NameValidator_Validate_def Let_def pre limitLen_take)
qed

lemma GenericValidator_ascii:
  assumes "isASCII s" "visitsOnce sch GenericPatterns"
  shows "GenericValidator_Validate L sch s
         = Some (Inr (take 2000 (neutralizeAll (sch GenericPatterns) (normalizeSpaces s))))"
proof -
  have pre: "TrimSpace L (collapseWhitespace (ReplaceAll (ReplaceAll (ReplaceAll (NFKC L s) [TAB] [SP]) [LF] [SP]) [CR] [SP]))
        = normalizeSpaces s"
    using assms(1)
    by (simp add: NFKC_ascii normalizeSpaces_def TrimSpace_ascii collapseWhitespace_def
          isASCII_collapseRuns isASCII_ReplaceAll)
  have "rangePatterns L (sch GenericPatterns) (ToLower L (normalizeSpaces s)) (normalizeSpaces s)
        = Some (Inr (neutralizeAll (sch GenericPatterns) (normalizeSpaces s)))"
    by (rule rangePatterns_ascii [OF visitsOnce_ok [OF assms(2) ok_Generic] isASCII_normalizeSpaces [OF assms(1)]])
  then show ?thesis
    by (simp add: GenericValidator_Validate_def Let_def pre limitLen_take)
qed

lemma DescriptionValidator_ascii:
  assumes "isASCII s" "visitsOnce sch DescriptionPatterns"
  shows "DescriptionValidator_Validate L sch s
         = Some (Inr (take 10000 (neutralizeAll (sch DescriptionPatterns) (unifyLineEnds s))))"
proof -
  have pre: "ReplaceAll (ReplaceAll (NFKC L s) [CR, LF] [LF]) [CR] [LF] = unifyLineEnds s"
    using assms(1) by (simp add: NFKC_ascii unifyLineEnds_def)
  have "rangePatterns L (sch DescriptionPatterns) (ToLower L (unifyLineEnds s)) (unifyLineEnds s)
        = Some (Inr (neutralizeAll (sch DescriptionPatterns) (unifyLineEnds s)))"
    by (rule rangePatterns_ascii [OF visitsOnce_ok [OF assms(2) ok_Description] isASCII_unifyLineEnds [OF assms(1)]])
  then show ?thesis
    by (simp add: DescriptionValidator_Validate_def Let_def pre limitLen_take)
qed

lemma sanitizeStringInput_ascii:
  assumes "isASCII s" "visitsOnce sch sanitizePatterns"
  shows "sanitizeStringInput L sch s
         = Some (Inr (neutralizeAll (sch sanitizePatterns) (take 65535 s)))"
proof -
  have "rangePatterns L (sch sanitizePatterns) (ToLower L (take 65535 s)) (take 65535 s)
        = Some (Inr (neutralizeAll (sch sanitizePatterns) (take 65535 s)))"
    by (rule rangePatterns_ascii [OF visitsOnce_ok [OF assms(2) ok_sanitize] isASCII_take [OF assms(1)]])
  then show ?thesis
    by (simp add: sanitizeStringInput_def Let_def limitLen_take)
qed

lemma Validate_ascii_returns:
  assumes "isASCII s" "visitsOnce sch (patternsOf v)"
  shows "\<exists>out. Validate L sch v s = Some (Inr out)"
  using assms
  by (cases v) (simp_all add: NameValidator_ascii GenericValidator_ascii DescriptionValidator_ascii)

lemma length_limitLen: "length (limitLen n s) \<le> n"
  by (simp add: limitLen_def)

lemma Validate_cap: "Validate L sch v s = Some (Inr out) \<Longrightarrow> length out \<le> capOf v"
proof (cases v)
  case IDValidator
  assume "Validate L sch v s = Some (Inr out)"
  with IDValidator show ?thesis
    by (auto simp: IDValidator_Validate_def Let_def length_limitLen)
next
  case DescriptionValidator
  assume "Validate L sch v s = Some (Inr out)"
  with DescriptionValidator show ?thesis
    by (auto simp: DescriptionValidator_Validate_def Let_def mapResult_cases length_limitLen)
next
  case GenericValidator
  assume "Validate L sch v s = Some (Inr out)"
  with GenericValidator show ?thesis
    by (auto simp: GenericValidator_Validate_def Let_def mapResult_cases length_limitLen)
next
  case NameValidator
  assume "Validate L sch v s = Some (Inr out)"
  with NameValidator show ?thesis
    by (auto simp: NameValidator_Validate_def Let_def mapResult_cases length_limitLen)
qed

lemma rangePatterns_no_match:
  "list_all (\<lambda>pr. \<not> Contains lower (fst pr)) ps \<Longrightarrow> rangePatterns L ps lower res = Some (Inr res)"
  by (induction ps) auto

section \<open>Patterns that cannot occur; a replacement that lengthens the text\<close>

lemma neutralizeOne_absent:
  assumes "c \<in> set (map lowerByte p)" "c \<notin> set (map lowerByte t)"
  shows "neutralizeOne t p r = t"
proof -
  have "\<not> sublist (map lowerByte p) (map lowerByte t)"
    using assms set_mono_sublist by fastforce
  then have "Index (map lowerByte t) (map lowerByte p) = None"
    by (simp add: Index_None_iff)
  then show ?thesis by (rule Index_None_neutralize)
qed

lemma neutralizeAll_absent:
  "list_all (\<lambda>pr. \<exists>c\<in>set (map lowerByte (fst pr)). c \<notin> A) ps \<Longrightarrow>
   set (map lowerByte t) \<subseteq> A \<Longrightarrow> neutralizeAll ps t = t"
proof (induction ps)
  case Nil
  show ?case by (simp add: neutralizeAll_def)
next
  case (Cons pr ps)
  obtain p r where pr: "pr = (p, r)" by (cases pr)
  from Cons.prems pr obtain c where c: "c \<in> set (map lowerByte p)" "c \<notin> A"
    by auto
  with Cons.prems(2) have "c \<notin> set (map lowerByte t)" by blast
  with c have "neutralizeOne t p r = t" by (intro neutralizeOne_absent)
  moreover have "neutralizeAll ps t = t"
    using Cons by simp
  ultimately show ?case
    by (simp add: neutralizeAll_def pr)
qed

lemma neutralizeAll_append:
  "neutralizeAll (ps @ qs) t = neutralizeAll qs (neutralizeAll ps t)"
  by (simp add: neutralizeAll_def)

lemma neutralizeAll_Cons:
  "neutralizeAll ((p, r) # ps) t = neutralizeAll ps (neutralizeOne t p r)"
  by (simp add: neutralizeAll_def)

lemma neutralizeOne_at_front:
  assumes "p \<noteq> []" "map lowerByte p = map lowerByte m" "length m = length p"
  shows "neutralizeOne (m @ t) p r = r @ neutralizeOne t p r"
  using assms by (subst neutralizeOne.simps) auto

lemma isASCII_replicate: "byte c < 0x80 \<Longrightarrow> isASCII (replicate n c)"
  by (simp add: isASCII_def list_all_iff)

lemma xp_growth:
  "neutralizeAll sanitizePatterns (''xp_cmdshell'' @ replicate n (CHR ''a''))
   = ''xp_cmd_shell'' @ replicate n (CHR ''a'')"
proof -
  define A where "A = set ''xp_cmdshela''"
  define t0 where "t0 = ''xp_cmdshell'' @ replicate n (CHR ''a'')"
  define t1 where "t1 = ''xp_cmd_shell'' @ replicate n (CHR ''a'')"
  define before where "before = take 11 sanitizePatterns"
  define after where "after = drop 12 sanitizePatterns"
  have split: "sanitizePatterns = before @ (''xp_cmdshell'', ''xp_cmd_shell'') # after"
    by (simp add: before_def after_def sanitizePatterns_def)
  have a0: "set (map lowerByte t0) \<subseteq> A"
    by (auto simp: t0_def A_def lowerByte_def)
  have a1: "set (map lowerByte t1) \<subseteq> A"
    by (auto simp: t1_def A_def lowerByte_def)
  have b: "list_all (\<lambda>pr. \<exists>c\<in>set (map lowerByte (fst pr)). c \<notin> A) before"
    by (simp add: before_def sanitizePatterns_def A_def lowerByte_def)
  have c: "list_all (\<lambda>pr. \<exists>c\<in>set (map lowerByte (fst pr)). c \<notin> A) after"
    by (simp add: after_def sanitizePatterns_def A_def lowerByte_def)
  have rest: "neutralizeOne (replicate n (CHR ''a'')) ''xp_cmdshell'' ''xp_cmd_shell'' = replicate n (CHR ''a'')"
    by (rule neutralizeOne_absent [of "CHR ''x''"]) (auto simp: lowerByte_def)
  have step: "neutralizeOne t0 ''xp_cmdshell'' ''xp_cmd_shell'' = t1"
    unfolding t0_def t1_def
    using neutralizeOne_at_front [of "''xp_cmdshell''" "''xp_cmdshell''" "replicate n (CHR ''a'')" "''xp_cmd_shell''"] rest
    by simp
  show ?thesis
    unfolding split neutralizeAll_append neutralizeAll_Cons
    using neutralizeAll_absent [OF b a0] neutralizeAll_absent [OF c a1] step
    by (simp add: t0_def t1_def)
qed

section \<open>The loop of Expand, piece by piece\<close>

lemma splitOn_nonempty [simp]: "splitOn c s \<noteq> []"
  by (induction s) (auto split: list.splits)

lemma length_splitOn: "length (splitOn c s) = count_list s c + 1"
  by (induction s) (auto split: list.splits)

lemma IndexByte_None: "IndexByte s c = None \<longleftrightarrow> c \<notin> set s"
  by (induction s) auto

lemma splitOn_absent: "c \<notin> set s \<Longrightarrow> splitOn c s = [s]"
  by (induction s) auto

lemma IndexByte_Some_split:
  "IndexByte s c = Some pos \<Longrightarrow>
   splitOn c s = take pos s # splitOn c (drop (pos + 1) s) \<and> c \<notin> set (take pos s)
   \<and> s = take pos s @ c # drop (pos + 1) s"
proof (induction s arbitrary: pos)
  case Nil
  then show ?case by simp
next
  case (Cons x xs)
  show ?case
  proof (cases "x = c")
    case True
    with Cons.prems show ?thesis by simp
  next
    case False
    with Cons.prems obtain q where q: "IndexByte xs c = Some q" "pos = Suc q"
      by auto
    from Cons.IH [OF q(1)] False q(2) show ?thesis by (simp split: list.splits)
  qed
qed

lemma ExpandLoop_pieces:
  "argI \<le> length vars \<Longrightarrow>
   ExpandLoop L schs vars sql argI buf =
     expandPieces L schs argI (tl (splitOn (CHR ''?'') sql)) (drop argI vars)
       (buf @ hd (splitOn (CHR ''?'') sql))"
proof (induction L schs vars sql argI buf rule: ExpandLoop.induct)
  case (1 L schs vars sql argI buf)
  show ?case
  proof (cases "IndexByte sql (CHR ''?'')")
    case None
    then have sp: "splitOn (CHR ''?'') sql = [sql]"
      by (simp add: IndexByte_None splitOn_absent)
    show ?thesis
    proof (cases "argI = length vars")
      case True
      with None sp show ?thesis by (subst ExpandLoop.simps) simp
    next
      case False
      with "1.prems" have "argI < length vars" by simp
      then obtain v vs where "drop argI vars = v # vs"
        by (metis Cons_nth_drop_Suc)
      with None sp False show ?thesis by (subst ExpandLoop.simps) simp
    qed
  next
    case (Some pos)
    note sp = IndexByte_Some_split [OF Some]
    obtain s1 ss where rest: "splitOn (CHR ''?'') (drop (pos + 1) sql) = s1 # ss"
      by (cases "splitOn (CHR ''?'') (drop (pos + 1) sql)") auto
    show ?thesis
    proof (cases "argI \<ge> length vars")
      case True
      with "1.prems" Some sp rest show ?thesis by (subst ExpandLoop.simps) simp
    next
      case False
      then have lt: "argI < length vars" by simp
      then have dr: "drop argI vars = vars ! argI # drop (argI + 1) vars"
        by (simp add: Cons_nth_drop_Suc)
      show ?thesis
      proof (cases "literal L (schs argI) (vars ! argI)")
        case None
        with Some False sp rest dr show ?thesis by (subst ExpandLoop.simps) simp
      next
        case lit: (Some y)
        show ?thesis
        proof (cases y)
          case (Inl err)
          with lit Some False sp rest dr show ?thesis by (subst ExpandLoop.simps) simp
        next
          case (Inr l)
          have "ExpandLoop L schs vars (drop (pos + 1) sql) (argI + 1) (buf @ take pos sql @ l) =
                expandPieces L schs (argI + 1) (tl (splitOn (CHR ''?'') (drop (pos + 1) sql)))
                  (drop (argI + 1) vars)
                  ((buf @ take pos sql @ l) @ hd (splitOn (CHR ''?'') (drop (pos + 1) sql)))"
            using Some False lit Inr lt by (intro "1.IH") auto
          with lit Inr Some False sp rest dr show ?thesis
            by (subst ExpandLoop.simps) simp
        qed
      qed
    qed
  qed
qed

lemma Expand_pieces:
  "Expand L schs sql vars =
     expandPieces L schs 0 (tl (splitOn (CHR ''?'') sql)) vars (hd (splitOn (CHR ''?'') sql))"
  using ExpandLoop_pieces [of 0 vars L schs sql "[]"] by (simp add: Expand_def)

lemma literal_error_kind:
  "literal L sch v = Some (Inl e) \<Longrightarrow> e \<noteq> MorePlaceholders \<and> e \<noteq> MoreValues"
proof (induction L sch v rule: literal.induct)
  case (5 L sch v)
  then show ?case using literal_string_outcome [of L sch v] by auto
next
  case (6 L sch v)
  have "literal L sch (VBytes v) = literal L sch (VString v)" by simp
  with 6 show ?case using literal_string_outcome [of L sch v] by auto
qed auto

lemma expandPieces_success:
  "length ss = length vs \<Longrightarrow> length lits = length vs \<Longrightarrow>
   (\<forall>j<length vs. literal L (schs (i + j)) (vs ! j) = Some (Inr (lits ! j))) \<Longrightarrow>
   expandPieces L schs i ss vs (pre @ s0) = Some (Inr (pre @ weave (s0 # ss) lits))"
proof (induction ss arbitrary: vs lits i pre s0)
  case Nil
  then show ?case by simp
next
  case (Cons s ss)
  from Cons.prems obtain v vs' where vs: "vs = v # vs'" by (cases vs) auto
  from Cons.prems vs obtain l lits' where lits: "lits = l # lits'" by (cases lits) auto
  from Cons.prems(3) vs lits have l0: "literal L (schs i) v = Some (Inr l)"
    by fastforce
  have rest: "\<forall>j<length vs'. literal L (schs (Suc i + j)) (vs' ! j) = Some (Inr (lits' ! j))"
  proof (intro allI impI)
    fix j assume "j < length vs'"
    with Cons.prems(3) [rule_format, of "Suc j"] vs lits
    show "literal L (schs (Suc i + j)) (vs' ! j) = Some (Inr (lits' ! j))" by simp
  qed
  have "expandPieces L schs (Suc i) ss vs' ((pre @ s0 @ l) @ s)
        = Some (Inr ((pre @ s0 @ l) @ weave (s # ss) lits'))"
    using Cons.prems vs lits rest by (intro Cons.IH) auto
  with l0 vs lits show ?case by simp
qed

lemma expandPieces_no_text:
  "length ss \<noteq> length vs \<Longrightarrow> expandPieces L schs i ss vs out \<noteq> Some (Inr t)"
proof (induction L schs i ss vs out rule: expandPieces.induct)
  case (4 L schs i s ss v vs out)
  then show ?case by (auto split: option.splits sum.splits)
qed auto

lemma expandPieces_MorePlaceholders:
  "expandPieces L schs i ss vs out = Some (Inl MorePlaceholders) \<longleftrightarrow>
   length vs < length ss \<and> (\<forall>j<length vs. \<exists>lit. literal L (schs (i + j)) (vs ! j) = Some (Inr lit))"
proof (induction L schs i ss vs out rule: expandPieces.induct)
  case (4 L schs i s ss v vs out)
  show ?case
  proof (cases "literal L (schs i) v")
    case None
    then show ?thesis by (auto dest: spec [of _ 0])
  next
    case (Some y)
    show ?thesis
    proof (cases y)
      case (Inl err)
      with Some literal_error_kind [of L "schs i" v err] show ?thesis
        by (auto dest: spec [of _ 0])
    next
      case (Inr lit)
      with Some 4 [of y lit] show ?thesis
        by (auto simp: less_Suc_eq_0_disj)
    qed
  qed
qed auto

lemma expandPieces_MoreValues:
  "expandPieces L schs i ss vs out = Some (Inl MoreValues) \<longleftrightarrow>
   length ss < length vs \<and> (\<forall>j<length ss. \<exists>lit. literal L (schs (i + j)) (vs ! j) = Some (Inr lit))"
proof (induction L schs i ss vs out rule: expandPieces.induct)
  case (4 L schs i s ss v vs out)
  show ?case
  proof (cases "literal L (schs i) v")
    case None
    then show ?thesis by (auto dest: spec [of _ 0])
  next
    case (Some y)
    show ?thesis
    proof (cases y)
      case (Inl err)
      with Some literal_error_kind [of L "schs i" v err] show ?thesis
        by (auto dest: spec [of _ 0])
    next
      case (Inr lit)
      with Some 4 [of y lit] show ?thesis
        by (auto simp: less_Suc_eq_0_disj)
    qed
  qed
qed auto

lemma length_tl_splitOn: "length (tl (splitOn c s)) = count_list s c"
  by (simp add: length_splitOn)

lemma splitOn_hd_tl: "hd (splitOn c s) # tl (splitOn c s) = splitOn c s"
  by simp

lemma weave_splitOn: "weave (splitOn c s) (replicate (count_list s c) [c]) = s"
proof (induction s)
  case Nil
  show ?case by simp
next
  case (Cons x xs)
  show ?case
  proof (cases "x = c")
    case True
    with Cons show ?thesis by simp
  next
    case False
    obtain s0 ss where sp: "splitOn c xs = s0 # ss" by (cases "splitOn c xs") auto
    with Cons False show ?thesis
      by (cases "replicate (count_list xs c) [c]") auto
  qed
qed

lemma splitOn_pieces: "seg \<in> set (splitOn c s) \<Longrightarrow> c \<notin> set seg"
proof (induction s arbitrary: seg)
  case Nil
  then show ?case by simp
next
  case (Cons x xs)
  obtain s0 ss where sp: "splitOn c xs = s0 # ss" by (cases "splitOn c xs") auto
  with Cons show ?case by (auto split: if_splits)
qed

lemma digits_small: "n < 10 \<Longrightarrow> digits n = [''0123456789'' ! n]"
  by (subst digits.simps) simp

lemma digits_big: "\<not> n < 10 \<Longrightarrow> digits n = digits (n div 10) @ [''0123456789'' ! (n mod 10)]"
  by (subst digits.simps) simp

lemma literal_VInt_123: "literal L sch (VInt 123) = Some (Inr ''123'')"
  by (simp add: formatInt_def digits_small digits_big)

section \<open>The injection example under every visiting order\<close>

lemma neutralizeOne_Index:
  "neutralizeOne s old new =
     (case Index (map lowerByte s) (map lowerByte old) of
        None \<Rightarrow> s
      | Some i \<Rightarrow> if old = [] then s
                  else take i s @ new @ neutralizeOne (drop (i + length old) s) old new)"
proof (cases "Index (map lowerByte s) (map lowerByte old)")
  case None
  then show ?thesis by (simp add: Index_None_neutralize)
next
  case (Some i)
  show ?thesis
  proof (cases "old = []")
    case True
    then show ?thesis using Some by (subst neutralizeOne.simps) simp
  next
    case False
    from Index_Some_neutralize [OF Some False] Some False show ?thesis by simp
  qed
qed

lemmas evalText = neutralizeOne_Index lowerByte_def char_of_def bit_Suc_0_iff

lemma dropTable_steps:
  "list_all (\<lambda>pr. neutralizeOne (dropTableStates False False) (fst pr) (snd pr)
      = dropTableStates (False \<or> fst pr \<in> set [[sq] @ ''; drop table'', ''; drop table''])
          (False \<or> fst pr \<in> set [''--''])) GenericPatterns"
  "list_all (\<lambda>pr. neutralizeOne (dropTableStates True False) (fst pr) (snd pr)
      = dropTableStates (True \<or> fst pr \<in> set [[sq] @ ''; drop table'', ''; drop table''])
          (False \<or> fst pr \<in> set [''--''])) GenericPatterns"
  "list_all (\<lambda>pr. neutralizeOne (dropTableStates False True) (fst pr) (snd pr)
      = dropTableStates (False \<or> fst pr \<in> set [[sq] @ ''; drop table'', ''; drop table''])
          (True \<or> fst pr \<in> set [''--''])) GenericPatterns"
  "list_all (\<lambda>pr. neutralizeOne (dropTableStates True True) (fst pr) (snd pr)
      = dropTableStates (True \<or> fst pr \<in> set [[sq] @ ''; drop table'', ''; drop table''])
          (True \<or> fst pr \<in> set [''--''])) GenericPatterns"
  by (simp_all add: GenericPatterns_def dropTableStates_def evalText)

lemma dropTable_step:
  assumes "pr \<in> set GenericPatterns"
  shows "neutralizeOne (dropTableStates d c) (fst pr) (snd pr)
      = dropTableStates (d \<or> fst pr \<in> set [[sq] @ ''; drop table'', ''; drop table''])
          (c \<or> fst pr \<in> set [''--''])"
proof -
  note s = dropTable_steps [unfolded list_all_iff, rule_format, OF assms]
  show ?thesis
  proof (cases d)
    case d: True
    show ?thesis
    proof (cases c)
      case True
      with d show ?thesis by (simp only: s)
    next
      case False
      with d show ?thesis by (simp only: s)
    qed
  next
    case d: False
    show ?thesis
    proof (cases c)
      case True
      with d show ?thesis by (simp only: s)
    next
      case False
      with d show ?thesis by (simp only: s)
    qed
  qed
qed

lemma dropTable_fold:
  "set ps \<subseteq> set GenericPatterns \<Longrightarrow>
   neutralizeAll ps (dropTableStates d c)
     = dropTableStates (d \<or> (\<exists>pr\<in>set ps. fst pr \<in> set [[sq] @ ''; drop table'', ''; drop table'']))
         (c \<or> (\<exists>pr\<in>set ps. fst pr \<in> set [''--'']))"
proof (induction ps arbitrary: d c)
  case Nil
  show ?case by (simp add: neutralizeAll_def)
next
  case (Cons pr ps)
  obtain p r where pr: "pr = (p, r)" by (cases pr)
  from Cons.prems have in1: "pr \<in> set GenericPatterns" and rest: "set ps \<subseteq> set GenericPatterns"
    by simp_all
  have "neutralizeAll (pr # ps) (dropTableStates d c)
        = neutralizeAll ps (neutralizeOne (dropTableStates d c) (fst pr) (snd pr))"
    by (simp add: pr neutralizeAll_Cons)
  also have "\<dots> = neutralizeAll ps (dropTableStates (d \<or> fst pr \<in> set [[sq] @ ''; drop table'', ''; drop table''])
          (c \<or> fst pr \<in> set [''--'']))"
    by (simp only: dropTable_step [OF in1])
  also have "\<dots> = dropTableStates
       ((d \<or> fst pr \<in> set [[sq] @ ''; drop table'', ''; drop table''])
          \<or> (\<exists>pr\<in>set ps. fst pr \<in> set [[sq] @ ''; drop table'', ''; drop table'']))
       ((c \<or> fst pr \<in> set [''--'']) \<or> (\<exists>pr\<in>set ps. fst pr \<in> set [''--'']))"
    by (rule Cons.IH [OF rest])
  also have "\<dots> = dropTableStates (d \<or> (\<exists>pr\<in>set (pr # ps). fst pr \<in> set [[sq] @ ''; drop table'', ''; drop table'']))
         (c \<or> (\<exists>pr\<in>set (pr # ps). fst pr \<in> set [''--'']))"
    by (rule arg_cong2 [where f = dropTableStates]) auto
  finally show ?case .
qed

lemma dropTable_any_order:
  assumes "visitsOnce sch GenericPatterns"
  shows "neutralizeAll (sch GenericPatterns) ([sq] @ ''; DROP TABLE users;--'')
         = [sq] @ ''; drop_table users;__''"
proof -
  have s: "set (sch GenericPatterns) = set GenericPatterns"
    using assms by (auto simp: visitsOnce_def dest: mset_eq_setD)
  have a: "\<exists>pr\<in>set GenericPatterns. fst pr \<in> set [[sq] @ ''; drop table'', ''; drop table'']"
    by (simp add: GenericPatterns_def)
  have b: "\<exists>pr\<in>set GenericPatterns. fst pr \<in> set [''--'']"
    by (simp add: GenericPatterns_def)
  have "neutralizeAll (sch GenericPatterns) (dropTableStates False False) = dropTableStates True True"
    using dropTable_fold [of "sch GenericPatterns" False False] a b unfolding s by simp
  then show ?thesis by (simp add: dropTableStates_def)
qed

lemma InferType_dropTable: "InferType ([sq] @ ''; DROP TABLE users;--'') = ParamTypeGeneric"
proof -
  have r: "runes ([sq] @ ''; DROP TABLE users;--'') = map byte ([sq] @ ''; DROP TABLE users;--'')"
    by (simp add: runes_ascii_Cons)
  show ?thesis
    unfolding InferType_def r
    by (simp add: isIDRune_def isCJKRune_def Contains_def namePatterns_def)
qed

lemma normalizeSpaces_dropTable:
  "normalizeSpaces ([sq] @ ''; DROP TABLE users;--'') = [sq] @ ''; DROP TABLE users;--''"
  by (simp add: normalizeSpaces_def ReplaceAll_single subst1_def collapseWhitespace_def
        regexpSpace_def trimASCII_def asciiSpace_def)

section \<open>Running the replacement loop\<close>

lemma replaceLoop_unfold:
  "replaceLoop s sLower oldLower oldLen new lastEnd res =
     (case (length sLower < lastEnd, Index (drop lastEnd sLower) oldLower) of
        (True, _) \<Rightarrow> Some (Inl Panic)
      | (False, None) \<Rightarrow>
          if length s < lastEnd then Some (Inl Panic) else Some (Inr (res @ drop lastEnd s))
      | (False, Some index) \<Rightarrow>
          if length s < lastEnd + index then Some (Inl Panic)
          else replaceLoop s sLower oldLower oldLen new (lastEnd + index + oldLen)
                 (res @ take index (drop lastEnd s) @ new))"
  by (subst replaceLoop.simps) (simp split: option.splits)

subsection \<open>One pass of a blocklist over lower-case text\<close>

lemma replaceNonEmpty_Nil [simp]: "replaceNonEmpty [] old new = []"
  by (simp add: replaceNonEmpty.simps)

lemma replaceNonEmpty_match:
  "old \<noteq> [] \<Longrightarrow> replaceNonEmpty (old @ rest) old new = new @ replaceNonEmpty rest old new"
  by (subst replaceNonEmpty.simps) (simp add: HasPrefix_iff)

lemma replaceNonEmpty_skip:
  "old \<noteq> [] \<Longrightarrow> \<not> prefix old (c # cs) \<Longrightarrow>
   replaceNonEmpty (c # cs) old new = c # replaceNonEmpty cs old new"
  by (subst replaceNonEmpty.simps) (simp add: HasPrefix_iff)

lemma replace_induct [consumes 1, case_names Nil match skip]:
  assumes "old \<noteq> []"
    and "P []"
    and "\<And>rest. P rest \<Longrightarrow> P (old @ rest)"
    and "\<And>c cs. \<not> prefix old (c # cs) \<Longrightarrow> P cs \<Longrightarrow> P (c # cs)"
  shows "P u"
proof (induction "length u" arbitrary: u rule: less_induct)
  case less
  show ?case
  proof (cases u)
    case Nil
    with assms(2) show ?thesis by simp
  next
    case (Cons c cs)
    show ?thesis
    proof (cases "prefix old u")
      case True
      then obtain rest where u: "u = old @ rest" by (auto simp: prefix_def)
      with assms(1) have "length rest < length u" by simp
      then have "P rest" by (rule less.hyps)
      with u assms(3) show ?thesis by simp
    next
      case False
      have "P cs" using Cons by (intro less.hyps) simp
      with False Cons assms(4) show ?thesis by simp
    qed
  qed
qed

lemma overlapsI:
  "w \<noteq> [] \<Longrightarrow> suffix w q \<Longrightarrow> prefix w r \<Longrightarrow> overlaps q r"
  "w \<noteq> [] \<Longrightarrow> prefix w q \<Longrightarrow> suffix w r \<Longrightarrow> overlaps q r"
  "sublist r q \<Longrightarrow> overlaps q r"
  "sublist q r \<Longrightarrow> overlaps q r"
  by (auto simp: overlaps_def list_ex_iff in_set_suffixes in_set_prefixes HasPrefix_iff
        Contains_iff suffix_to_prefix)

lemma noov_prefix:
  assumes "\<not> overlaps q r" "old \<noteq> []"
  shows "w \<noteq> [] \<Longrightarrow> suffix w q \<Longrightarrow> prefix w (replaceNonEmpty u old r) \<Longrightarrow> prefix w u"
  using assms(2)
proof (induction u arbitrary: w rule: replace_induct)
  case Nil
  then show ?case by simp
next
  case (match rest)
  from match.prems(3) assms(2) have "prefix w (r @ replaceNonEmpty rest old r)"
    by (simp add: replaceNonEmpty_match)
  then consider "prefix w r" | us where "w = r @ us"
    by (auto simp: prefix_append)
  then show ?case
  proof cases
    case 1
    with match.prems assms(1) overlapsI(1) show ?thesis by blast
  next
    case 2
    with match.prems(2) have "sublist r q"
      by (auto simp: suffix_def sublist_def)
    with assms(1) overlapsI(3) show ?thesis by blast
  qed
next
  case (skip c cs)
  from skip.prems(3) skip.hyps assms(2) have p: "prefix w (c # replaceNonEmpty cs old r)"
    by (simp add: replaceNonEmpty_skip)
  from skip.prems(1) obtain x w' where w: "w = x # w'" by (cases w) auto
  with p have x: "x = c" and p': "prefix w' (replaceNonEmpty cs old r)" by simp_all
  show ?case
  proof (cases "w' = []")
    case True
    with w x show ?thesis by simp
  next
    case False
    from skip.prems(2) w have "suffix w' q" by (auto dest: suffix_ConsD)
    from skip.IH [OF False this p'] w x show ?thesis by simp
  qed
qed

lemma noov_sublist:
  assumes "\<not> overlaps q r" "old \<noteq> []" "q \<noteq> []"
  shows "sublist q (replaceNonEmpty u old r) \<Longrightarrow> sublist q u"
  using assms(2)
proof (induction u rule: replace_induct)
  case Nil
  then show ?case by simp
next
  case (match rest)
  from match.prems assms(2) have "sublist q (r @ replaceNonEmpty rest old r)"
    by (simp add: replaceNonEmpty_match)
  then consider "sublist q r" | "sublist q (replaceNonEmpty rest old r)"
    | xs1 xs2 where "q = xs1 @ xs2" "suffix xs1 r" "prefix xs2 (replaceNonEmpty rest old r)"
    by (auto simp: sublist_append)
  then show ?case
  proof cases
    case 1
    with assms(1) overlapsI(4) show ?thesis by blast
  next
    case 2
    then have "sublist q rest" by (rule match.IH)
    then show ?thesis by (auto simp: sublist_append)
  next
    case 3
    show ?thesis
    proof (cases "xs1 = []")
      case True
      with 3 have "sublist q (replaceNonEmpty rest old r)" by (auto intro: prefix_imp_sublist)
      then have "sublist q rest" by (rule match.IH)
      then show ?thesis by (auto simp: sublist_append)
    next
      case False
      from 3(1) have "prefix xs1 q" by simp
      with False 3(2) assms(1) overlapsI(2) show ?thesis by blast
    qed
  qed
next
  case (skip c cs)
  from skip.prems skip.hyps assms(2) have s: "sublist q (c # replaceNonEmpty cs old r)"
    by (simp add: replaceNonEmpty_skip)
  then consider "prefix q (c # replaceNonEmpty cs old r)" | "sublist q (replaceNonEmpty cs old r)"
    by (auto simp: sublist_Cons_right)
  then show ?case
  proof cases
    case 1
    then have "prefix q (replaceNonEmpty (c # cs) old r)"
      using skip.hyps assms(2) by (simp add: replaceNonEmpty_skip)
    from noov_prefix [OF assms(1,2) assms(3) suffix_order.refl this]
    show ?thesis by (rule prefix_imp_sublist)
  next
    case 2
    then have "sublist q cs" by (rule skip.IH)
    then show ?thesis by (simp add: sublist_Cons_right)
  qed
qed

lemma noov_removed:
  assumes "\<not> overlaps q r" "q \<noteq> []"
  shows "\<not> sublist q (replaceNonEmpty u q r)"
  using assms(2)
proof (induction u rule: replace_induct)
  case Nil
  with assms(2) show ?case by simp
next
  case (match rest)
  show ?case
  proof
    assume "sublist q (replaceNonEmpty (q @ rest) q r)"
    with assms(2) have "sublist q (r @ replaceNonEmpty rest q r)"
      by (simp add: replaceNonEmpty_match)
    then consider "sublist q r" | "sublist q (replaceNonEmpty rest q r)"
      | xs1 xs2 where "q = xs1 @ xs2" "suffix xs1 r" "prefix xs2 (replaceNonEmpty rest q r)"
      by (auto simp: sublist_append)
    then show False
    proof cases
      case 1
      with assms(1) overlapsI(4) show ?thesis by blast
    next
      case 2
      with match.IH show ?thesis by simp
    next
      case 3
      show ?thesis
      proof (cases "xs1 = []")
        case True
        with 3 have "sublist q (replaceNonEmpty rest q r)" by (auto intro: prefix_imp_sublist)
        with match.IH show ?thesis by simp
      next
        case False
        from 3(1) have "prefix xs1 q" by simp
        with False 3(2) assms(1) overlapsI(2) show ?thesis by blast
      qed
    qed
  qed
next
  case (skip c cs)
  show ?case
  proof
    assume "sublist q (replaceNonEmpty (c # cs) q r)"
    with skip.hyps assms(2) have "sublist q (c # replaceNonEmpty cs q r)"
      by (simp add: replaceNonEmpty_skip)
    then consider "prefix q (c # replaceNonEmpty cs q r)" | "sublist q (replaceNonEmpty cs q r)"
      by (auto simp: sublist_Cons_right)
    then show False
    proof cases
      case 1
      then have "prefix q (replaceNonEmpty (c # cs) q r)"
        using skip.hyps assms(2) by (simp add: replaceNonEmpty_skip)
      from noov_prefix [OF assms(1,2) assms(2) suffix_order.refl this] skip.hyps
      show ?thesis by simp
    next
      case 2
      with skip.IH show ?thesis by simp
    qed
  qed
qed

lemma hd_splitOn_Cons: "x \<noteq> c \<Longrightarrow> hd (splitOn c (x # xs)) = x # hd (splitOn c xs)"
  by (cases "splitOn c xs") (use splitOn_nonempty [of c xs] in auto)

lemma last_splitOn_Cons:
  "last (splitOn c (x # xs)) =
     (if x \<noteq> c \<and> length (splitOn c xs) = 1 then x # last (splitOn c xs) else last (splitOn c xs))"
  by (cases "splitOn c xs") (use splitOn_nonempty [of c xs] in \<open>auto split: list.splits\<close>)

lemma run_prefix: "c \<notin> set w \<Longrightarrow> prefix w r \<Longrightarrow> prefix w (hd (splitOn c r))"
proof (induction r arbitrary: w)
  case Nil
  then show ?case by simp
next
  case (Cons x xs)
  show ?case
  proof (cases w)
    case Nil
    then show ?thesis by simp
  next
    case (Cons y w')
    with Cons.prems have "y = x" "x \<noteq> c" "c \<notin> set w'" "prefix w' xs" by auto
    with Cons.IH [of w'] Cons show ?thesis by (simp add: hd_splitOn_Cons del: splitOn.simps)
  qed
qed

lemma run_suffix: "c \<notin> set w \<Longrightarrow> suffix w r \<Longrightarrow> suffix w (last (splitOn c r))"
proof (induction r)
  case Nil
  then show ?case by simp
next
  case (Cons x xs)
  from Cons.prems(2) consider "w = x # xs" | "suffix w xs" by (auto simp: suffix_Cons)
  then show ?case
  proof cases
    case 1
    with Cons.prems(1) have "splitOn c (x # xs) = [x # xs]" by (intro splitOn_absent) simp
    with 1 show ?thesis by simp
  next
    case 2
    with Cons.IH Cons.prems(1) have "suffix w (last (splitOn c xs))" by simp
    then show ?thesis by (auto simp: last_splitOn_Cons suffix_Cons simp del: splitOn.simps)
  qed
qed

lemma run_sublist: "c \<notin> set w \<Longrightarrow> sublist w r \<Longrightarrow> \<exists>run\<in>set (splitOn c r). sublist w run"
proof (induction r)
  case Nil
  then show ?case by simp
next
  case (Cons x xs)
  from Cons.prems(2) consider "prefix w (x # xs)" | "sublist w xs"
    by (auto simp: sublist_Cons_right)
  then show ?case
  proof cases
    case 1
    with Cons.prems(1) have "prefix w (hd (splitOn c (x # xs)))" by (rule run_prefix)
    moreover have "hd (splitOn c (x # xs)) \<in> set (splitOn c (x # xs))"
      by (rule hd_in_set) (rule splitOn_nonempty)
    ultimately show ?thesis by (blast intro: prefix_imp_sublist)
  next
    case 2
    with Cons.IH Cons.prems(1) obtain run where run: "run \<in> set (splitOn c xs)" "sublist w run"
      by blast
    show ?thesis
    proof (cases "x = c")
      case True
      with run show ?thesis by auto
    next
      case False
      obtain piece pieces where sp: "splitOn c xs = piece # pieces"
        using splitOn_nonempty [of c xs] by (cases "splitOn c xs") auto
      with False have eq: "splitOn c (x # xs) = (x # piece) # pieces" by simp
      from run sp consider "run = piece" | "run \<in> set pieces" by auto
      then show ?thesis
      proof cases
        case 1
        with run(2) have "sublist w (x # piece)" by (simp add: sublist_Cons_right)
        with eq show ?thesis by auto
      next
        case 2
        with run(2) eq show ?thesis by auto
      qed
    qed
  qed
qed

lemma runs_sep: "2 \<le> length (splitOn c r) \<Longrightarrow> c \<in> set r"
  by (rule ccontr) (simp add: splitOn_absent)

lemma keepsRunsD:
  assumes "keepsRuns (p, r)"
  shows "CHR ''_'' \<in> set r"
    and "CHR ''_'' \<notin> set w \<Longrightarrow> prefix w r \<Longrightarrow> prefix w p"
    and "CHR ''_'' \<notin> set w \<Longrightarrow> suffix w r \<Longrightarrow> suffix w p"
    and "CHR ''_'' \<notin> set w \<Longrightarrow> sublist w r \<Longrightarrow> sublist w p"
proof -
  let ?runs = "splitOn (CHR ''_'') r"
  from assms have len: "2 \<le> length ?runs" and h: "prefix (hd ?runs) p"
    and l: "suffix (last ?runs) p" and a: "\<forall>run\<in>set ?runs. sublist run p"
    by (simp_all add: keepsRuns_def Let_def HasPrefix_iff Contains_iff suffix_to_prefix
          list_all_iff)
  from len show "CHR ''_'' \<in> set r" by (rule runs_sep)
  show "prefix w p" if "CHR ''_'' \<notin> set w" "prefix w r"
    using run_prefix [OF that] h by (rule prefix_order.trans)
  show "suffix w p" if "CHR ''_'' \<notin> set w" "suffix w r"
    using run_suffix [OF that] l by (rule suffix_order.trans)
  show "sublist w p" if "CHR ''_'' \<notin> set w" "sublist w r"
    using run_sublist [OF that] a by (blast intro: sublist_order.order.trans)
qed

lemma runs_prefix:
  assumes "keepsRuns (p, r)" "p \<noteq> []"
  shows "CHR ''_'' \<notin> set w \<Longrightarrow> prefix w (replaceNonEmpty u p r) \<Longrightarrow> prefix w u"
  using assms(2)
proof (induction u arbitrary: w rule: replace_induct)
  case Nil
  then show ?case by simp
next
  case (match rest)
  from match.prems(2) assms(2) have "prefix w (r @ replaceNonEmpty rest p r)"
    by (simp add: replaceNonEmpty_match)
  then consider "prefix w r" | us where "w = r @ us"
    by (auto simp: prefix_append)
  then show ?case
  proof cases
    case 1
    with keepsRunsD(2) [OF assms(1) match.prems(1)] have "prefix w p" by simp
    then show ?thesis by (simp add: prefix_prefix)
  next
    case 2
    with keepsRunsD(1) [OF assms(1)] match.prems(1) show ?thesis by simp
  qed
next
  case (skip c cs)
  from skip.prems(2) skip.hyps assms(2) have p: "prefix w (c # replaceNonEmpty cs p r)"
    by (simp add: replaceNonEmpty_skip)
  show ?case
  proof (cases w)
    case Nil
    then show ?thesis by simp
  next
    case (Cons x w')
    with p skip.prems(1) have "x = c" "prefix w' (replaceNonEmpty cs p r)" "CHR ''_'' \<notin> set w'"
      by simp_all
    with skip.IH [of w'] Cons show ?thesis by simp
  qed
qed

lemma runs_sublist:
  assumes "keepsRuns (p, r)" "p \<noteq> []" "CHR ''_'' \<notin> set w"
  shows "sublist w (replaceNonEmpty u p r) \<Longrightarrow> sublist w u"
  using assms(2)
proof (induction u rule: replace_induct)
  case Nil
  then show ?case by simp
next
  case (match rest)
  from match.prems assms(2) have "sublist w (r @ replaceNonEmpty rest p r)"
    by (simp add: replaceNonEmpty_match)
  then consider "sublist w r" | "sublist w (replaceNonEmpty rest p r)"
    | xs1 xs2 where "w = xs1 @ xs2" "suffix xs1 r" "prefix xs2 (replaceNonEmpty rest p r)"
    by (auto simp: sublist_append)
  then show ?case
  proof cases
    case 1
    with keepsRunsD(4) [OF assms(1,3)] have "sublist w p" by simp
    then show ?thesis by (auto simp: sublist_append)
  next
    case 2
    then have "sublist w rest" by (rule match.IH)
    then show ?thesis by (auto simp: sublist_append)
  next
    case 3
    from 3(1) assms(3) have n1: "CHR ''_'' \<notin> set xs1" and n2: "CHR ''_'' \<notin> set xs2" by simp_all
    from keepsRunsD(3) [OF assms(1) n1 3(2)] have s1: "suffix xs1 p" .
    from runs_prefix [OF assms(1,2) n2 3(3)] have s2: "prefix xs2 rest" .
    from 3(1) s1 s2 show ?thesis by (auto simp: sublist_append)
  qed
next
  case (skip c cs)
  from skip.prems skip.hyps assms(2) have s: "sublist w (c # replaceNonEmpty cs p r)"
    by (simp add: replaceNonEmpty_skip)
  then consider "prefix w (c # replaceNonEmpty cs p r)" | "sublist w (replaceNonEmpty cs p r)"
    by (auto simp: sublist_Cons_right)
  then show ?case
  proof cases
    case 1
    then have "prefix w (replaceNonEmpty (c # cs) p r)"
      using skip.hyps assms(2) by (simp add: replaceNonEmpty_skip)
    from runs_prefix [OF assms(1,2,3) this] show ?thesis by (rule prefix_imp_sublist)
  next
    case 2
    then have "sublist w cs" by (rule skip.IH)
    then show ?thesis by (simp add: sublist_Cons_right)
  qed
qed

lemma lower_neutralizeOne:
  "p \<noteq> [] \<Longrightarrow> map lowerByte p = p \<Longrightarrow>
   map lowerByte (neutralizeOne t p r) = replaceNonEmpty (map lowerByte t) p (map lowerByte r)"
proof (induction t p r rule: neutralizeOne.induct)
  case (1 s old new)
  show ?case
  proof (cases "s = []")
    case True
    then show ?thesis
      by (subst neutralizeOne.simps, subst replaceNonEmpty.simps) simp
  next
    case False
    then obtain c cs where s: "s = c # cs" by (cases s) auto
    show ?thesis
    proof (cases "prefix old (map lowerByte s)")
      case True
      with False 1 show ?thesis
        by (subst neutralizeOne.simps, subst replaceNonEmpty.simps)
           (simp add: HasPrefix_iff drop_map)
    next
      case False
      with s 1 show ?thesis
        by (subst neutralizeOne.simps, subst replaceNonEmpty.simps)
           (simp add: HasPrefix_iff)
    qed
  qed
qed

lemma lower_neutralizeAll:
  "list_all okPattern ps \<Longrightarrow> list_all (\<lambda>pr. map lowerByte (snd pr) = snd pr) ps \<Longrightarrow>
   map lowerByte (neutralizeAll ps t) = replacePlain ps (map lowerByte t)"
proof (induction ps arbitrary: t)
  case Nil
  then show ?case by (simp add: neutralizeAll_def replacePlain_def)
next
  case (Cons pr ps)
  obtain p r where pr: "pr = (p, r)" by (cases pr)
  from Cons.prems pr have p: "p \<noteq> []" "map lowerByte p = p" "map lowerByte r = r"
    by (simp_all add: okPattern_def [of "(p, r)"])
  from Cons.prems have "map lowerByte (neutralizeAll ps (neutralizeOne t p r))
      = replacePlain ps (map lowerByte (neutralizeOne t p r))"
    by (intro Cons.IH) simp_all
  with p pr show ?case
    by (simp add: neutralizeAll_def replacePlain_def lower_neutralizeOne)
qed

lemma replacePlain_removed:
  assumes K: "\<And>u. \<not> sublist q (replaceNonEmpty u q rq)"
    and P: "\<And>p r u. (p, r) \<in> set ps0 \<Longrightarrow> sublist q (replaceNonEmpty u p r) \<Longrightarrow> sublist q u"
  shows "set ps \<subseteq> set ps0 \<Longrightarrow> (q, rq) \<in> set ps \<or> \<not> sublist q u \<Longrightarrow>
         \<not> sublist q (replacePlain ps u)"
proof (induction ps arbitrary: u)
  case Nil
  then show ?case by (simp add: replacePlain_def)
next
  case (Cons pr ps)
  obtain p r where pr: "pr = (p, r)" by (cases pr)
  have step: "replacePlain (pr # ps) u = replacePlain ps (replaceNonEmpty u p r)"
    by (simp add: replacePlain_def pr)
  from Cons.prems(1) have sub: "set ps \<subseteq> set ps0" and mem: "(p, r) \<in> set ps0"
    by (simp_all add: pr)
  have "(q, rq) \<in> set ps \<or> \<not> sublist q (replaceNonEmpty u p r)"
  proof (cases "(p, r) = (q, rq)")
    case True
    with K show ?thesis by simp
  next
    case False
    with Cons.prems(2) pr consider "(q, rq) \<in> set ps" | "\<not> sublist q u" by auto
    then show ?thesis
    proof cases
      case 1
      then show ?thesis by simp
    next
      case 2
      with P [OF mem] show ?thesis by blast
    qed
  qed
  with Cons.IH [OF sub] step show ?case by simp
qed

lemma keeps_Name: "list_all keepsRuns NamePatterns"
  by (simp add: NamePatterns_def keepsRuns_def Contains_def)

lemma removedPatterns_subset: "set removedPatterns \<subseteq> set NamePatterns"
  by (simp add: removedPatterns_def NamePatterns_def)

lemma removed_checked: "list_all removedCheck removedPatterns"
  by (simp add: removedPatterns_def removedCheck_def overlaps_def Contains_def NamePatterns_def)

lemma Name_covered:
  "list_all (\<lambda>pr. Contains (snd pr) (fst pr) \<or> list_ex (\<lambda>b. Contains (fst pr) (fst b)) removedPatterns)
     NamePatterns"
  by (simp add: removedPatterns_def Contains_def NamePatterns_def)

lemma lowerRepl_Name: "list_all (\<lambda>pr. map lowerByte (snd pr) = snd pr) NamePatterns"
  by (simp add: NamePatterns_def lowerByte_def)

lemma isASCII_neutralizeAll:
  "list_all okPattern ps \<Longrightarrow> isASCII t \<Longrightarrow> isASCII (neutralizeAll ps t)"
proof (induction ps arbitrary: t)
  case Nil
  then show ?case by (simp add: neutralizeAll_def)
next
  case (Cons pr ps)
  obtain p r where pr: "pr = (p, r)" by (cases pr)
  from Cons.prems pr have "isASCII r" by (simp add: okPattern_def [of "(p, r)"])
  with Cons.prems(2) have "isASCII (neutralizeOne t p r)" by (rule isASCII_neutralizeOne)
  with Cons.prems(1) have "isASCII (neutralizeAll ps (neutralizeOne t p r))"
    by (intro Cons.IH) simp_all
  with pr show ?case by (simp add: neutralizeAll_def)
qed

lemma Name_removed:
  assumes "(q, rq) \<in> set removedPatterns" "set ps = set NamePatterns"
  shows "\<not> sublist q (replacePlain ps u)"
proof -
  from removed_checked assms(1) have "removedCheck (q, rq)"
    by (auto simp: list_all_iff)
  then have q: "q \<noteq> []" and self: "\<not> overlaps q rq"
    and other: "CHR ''_'' \<notin> set q \<or> list_all (\<lambda>pr'. \<not> overlaps q (snd pr')) NamePatterns"
    by (simp_all add: removedCheck_def)
  have K: "\<not> sublist q (replaceNonEmpty t q rq)" for t
    using self q by (rule noov_removed)
  have P: "sublist q t" if mem: "(p, r) \<in> set NamePatterns" and s: "sublist q (replaceNonEmpty t p r)"
    for p r t
  proof -
    from ok_Name mem have "okPattern (p, r)" by (auto simp: list_all_iff)
    then have p: "p \<noteq> []" by (simp add: okPattern_def)
    from other show ?thesis
    proof
      assume n: "CHR ''_'' \<notin> set q"
      from keeps_Name mem have "keepsRuns (p, r)" by (auto simp: list_all_iff)
      from this p n s show ?thesis by (rule runs_sublist)
    next
      assume "list_all (\<lambda>pr'. \<not> overlaps q (snd pr')) NamePatterns"
      with mem have "\<not> overlaps q r" by (auto simp: list_all_iff)
      from this p q s show ?thesis by (rule noov_sublist)
    qed
  qed
  from assms removedPatterns_subset have "(q, rq) \<in> set ps" by auto
  with replacePlain_removed [of q rq NamePatterns ps u, OF K P] assms(2) show ?thesis
    by simp
qed

lemma sublist_of_take: "sublist w (take n xs) \<Longrightarrow> sublist w xs"
proof -
  assume "sublist w (take n xs)"
  then obtain ps ss where "take n xs = ps @ w @ ss" by (auto simp: sublist_def)
  then have "xs = ps @ w @ (ss @ drop n xs)" by (metis append_assoc append_take_drop_id)
  then show ?thesis unfolding sublist_def by blast
qed

lemma NameValidator_lowered:
  assumes "isASCII s" "visitsOnce sch NamePatterns"
  shows "\<exists>out. NameValidator_Validate L sch s = Some (Inr out)
           \<and> ToLower L out
             = take 500 (replacePlain (sch NamePatterns) (map lowerByte (normalizeSpaces s)))"
proof -
  let ?ps = "sch NamePatterns" and ?t = "normalizeSpaces s"
  let ?out = "take 500 (neutralizeAll ?ps ?t)"
  have ok: "list_all okPattern ?ps"
    using assms(2) ok_Name by (rule visitsOnce_ok)
  have low: "list_all (\<lambda>pr. map lowerByte (snd pr) = snd pr) ?ps"
    using lowerRepl_Name by (simp add: visitsOnce_list_all [OF assms(2)])
  have "isASCII (neutralizeAll ?ps ?t)"
    using ok isASCII_normalizeSpaces [OF assms(1)] by (rule isASCII_neutralizeAll)
  then have "isASCII ?out" by (rule isASCII_take)
  then have "ToLower L ?out = map lowerByte ?out" by (rule ToLower_ascii)
  also have "\<dots> = take 500 (replacePlain ?ps (map lowerByte ?t))"
    by (simp add: take_map [symmetric] lower_neutralizeAll [OF ok low])
  finally show ?thesis
    using NameValidator_ascii [OF assms, of L] by simp
qed

text \<open>
  Claim C4. \<open>quoteString\<close> applies the eight substitutions in the order backslash, single
  quote, double quote, line feed, carriage return, tab, NUL, 0x1A and puts the result
  between two single quotes. One application is enough: the result is the input with
  every byte escaped exactly once (no escape introduced by one step is escaped again by
  a later one). \<open>quoteString("hello's world")\<close> is \<open>'hello''s world'\<close>.
\<close>

theorem C4_quoteString:
  "quoteString s = [sq] @ fold (\<lambda>(old, new) t. ReplaceAll t old new) escapeSteps s @ [sq]
   \<and> quoteString s = [sq] @ concat (map escapeByte s) @ [sq]
   \<and> quoteString (''hello'' @ [sq] @ ''s world'') = [sq] @ ''hello'' @ [sq, sq] @ ''s world'' @ [sq]"
proof -
  have "quoteString s = [sq] @ fold (\<lambda>(old, new) t. ReplaceAll t old new) escapeSteps s @ [sq]"
    by (simp add: quoteString_def escapeSteps_def Let_def)
  moreover have "quoteString (''hello'' @ [sq] @ ''s world'') = [sq] @ ''hello'' @ [sq, sq] @ ''s world'' @ [sq]"
    by (simp add: quoteString_bytewise escapeByte_def)
  ultimately show ?thesis
    using quoteString_bytewise by blast
qed



text \<open>
  Claim C6. For every input \<open>s\<close> the output of the ID validator contains only bytes of
  \<open>[A-Za-z0-9_-]\<close> and has at most 100 bytes: it is the first 100 bytes of the normalized
  text in which every code point of the allow-list is kept and every other code point is
  replaced by one underscore.
\<close>

theorem C6_IDValidator:
  "(\<forall>c\<in>set (IDValidator_Validate L s). isIDByte c)
   \<and> length (IDValidator_Validate L s) \<le> 100
   \<and> IDValidator_Validate L s = take 100 (map idSubst (runes (NFKC L s)))"
proof -
  have eq: "IDValidator_Validate L s = take 100 (map idSubst (runes (NFKC L s)))"
    by (simp add: IDValidator_Validate_def Let_def limitLen_take idSubst_eq)
  have "\<forall>c\<in>set (take 100 (map idSubst (runes (NFKC L s)))). isIDByte c"
    by (auto dest!: in_set_takeD simp: isIDByte_idSubst)
  with eq show ?thesis by simp
qed

text \<open>The theorem at \<open>project@123#abc\<close>, which becomes \<open>project_123_abc\<close>.\<close>

theorem C6_IDValidator_witness:
  "IDValidator_Validate plainLib ''project@123#abc'' = ''project_123_abc''
   \<and> length (IDValidator_Validate plainLib ''project@123#abc'') \<le> 100"
proof -
  have ev: "take 100 (map idSubst (runes (NFKC plainLib ''project@123#abc''))) = ''project_123_abc''"
    by code_simp
  note t = C6_IDValidator [of plainLib "''project@123#abc''"]
  from t have eq: "IDValidator_Validate plainLib ''project@123#abc''
      = take 100 (map idSubst (runes (NFKC plainLib ''project@123#abc'')))"
    by blast
  from t have len: "length (IDValidator_Validate plainLib ''project@123#abc'') \<le> 100"
    by blast
  from trans [OF eq ev] len show ?thesis
    by (intro conjI)
qed

text \<open>
  Claim C7 says that the output of \<open>sanitizeStringInput\<close> never exceeds 65535 bytes. It
  does: the function caps its input, not its output, and a replacement can be longer
  than its pattern. The input below has 65535 bytes, \<open>xp_cmdshell\<close> followed by 65524
  letters \<open>a\<close>; the output has 65536.
\<close>

theorem C7_counterexample:
  "sanitizeStringInput plainLib id (''xp_cmdshell'' @ replicate 65524 (CHR ''a''))
     = Some (Inr (''xp_cmd_shell'' @ replicate 65524 (CHR ''a'')))
   \<and> 65535 < length (''xp_cmd_shell'' @ replicate 65524 (CHR ''a''))"
proof -
  have asc: "isASCII (''xp_cmdshell'' @ replicate 65524 (CHR ''a''))"
    by (simp add: isASCII_replicate)
  have v: "visitsOnce id sanitizePatterns"
    by (simp add: visitsOnce_def)
  have tk: "take 65535 (''xp_cmdshell'' @ replicate 65524 (CHR ''a'')) = ''xp_cmdshell'' @ replicate 65524 (CHR ''a'')"
    by simp
  show ?thesis
    using sanitizeStringInput_ascii [OF asc v, of plainLib] xp_growth [of 65524]
    unfolding tk by simp
qed

text \<open>
  Claim C7, as amended. For every input text the output of each validator is at most its
  cap long: 100 bytes for ID, 500 for Name, 2000 for Generic, 10000 for Description; and
  on ASCII text, with every pattern visited once, each validator does return an output.
  \<open>sanitizeStringInput\<close> truncates its input to 65535 bytes before the replacements and
  does not cap their result: when no pattern occurs in the lower-cased truncated input
  the output is that truncated input, of at most 65535 bytes.
\<close>

theorem C7_caps:
  "(\<forall>out. Validate L sch v s = Some (Inr out) \<longrightarrow> length out \<le> capOf v)
   \<and> (isASCII s \<and> visitsOnce sch (patternsOf v) \<longrightarrow>
        (\<exists>out. Validate L sch v s = Some (Inr out) \<and> length out \<le> capOf v))
   \<and> (list_all (\<lambda>pr. \<not> Contains (ToLower L (take 65535 s)) (fst pr)) (sch sanitizePatterns) \<longrightarrow>
        sanitizeStringInput L sch s = Some (Inr (take 65535 s)))"
proof (intro conjI allI impI)
  fix out assume "Validate L sch v s = Some (Inr out)"
  then show "length out \<le> capOf v" by (rule Validate_cap)
next
  assume a: "isASCII s \<and> visitsOnce sch (patternsOf v)"
  then obtain out where o: "Validate L sch v s = Some (Inr out)"
    using Validate_ascii_returns by blast
  with Validate_cap [OF o] show "\<exists>out. Validate L sch v s = Some (Inr out) \<and> length out \<le> capOf v"
    by blast
next
  assume "list_all (\<lambda>pr. \<not> Contains (ToLower L (take 65535 s)) (fst pr)) (sch sanitizePatterns)"
  then show "sanitizeStringInput L sch s = Some (Inr (take 65535 s))"
    by (simp add: sanitizeStringInput_def Let_def limitLen_take rangePatterns_no_match)
qed

text \<open>
  The theorem at the Generic validator on \<open>a/*b*/ union select\<close> and at
  \<open>sanitizeStringInput\<close> on \<open>hello world\<close>.
\<close>

theorem C7_caps_witness:
  "(\<exists>out. Validate plainLib id GenericValidator ''a/*b*/ union select'' = Some (Inr out)
        \<and> length out \<le> 2000)
   \<and> sanitizeStringInput plainLib id ''hello world'' = Some (Inr ''hello world'')"
proof -
  have 1: "isASCII ''a/*b*/ union select'' \<and> visitsOnce id (patternsOf GenericValidator)"
    by (simp add: visitsOnce_def)
  have 2: "list_all (\<lambda>pr. \<not> Contains (ToLower plainLib (take 65535 ''hello world'')) (fst pr))
             (id sanitizePatterns)"
    by (simp add: ToLower_def lowerByte_def sanitizePatterns_def Contains_def)
  have 3: "take 65535 ''hello world'' = ''hello world''" by simp
  from C7_caps [of plainLib id GenericValidator "''a/*b*/ union select''"] 1
  have a: "\<exists>out. Validate plainLib id GenericValidator ''a/*b*/ union select'' = Some (Inr out)
        \<and> length out \<le> 2000"
    by simp
  from C7_caps [of plainLib id GenericValidator "''hello world''"] 2
  have b: "sanitizeStringInput plainLib id ''hello world'' = Some (Inr ''hello world'')"
    unfolding 3 by blast
  from a b show ?thesis ..
qed




text \<open>
  Claim C1 says that \<open>Expand\<close> succeeds whenever the template has as many placeholders as
  there are values. It does not when a value has no literal: \<open>literal\<close> fails on a value
  of an unsupported type, and \<open>Expand\<close> returns that error.
\<close>

theorem C1_counterexample:
  "count_list ''id = ?'' (CHR ''?'') = length [VOther ''struct {}'']
   \<and> Expand plainLib listingOrder ''id = ?'' [VOther ''struct {}'']
       = Some (Inl (UnsupportedType ''struct {}''))"
  by (simp add: Expand_pieces)

text \<open>
  Claim C1, as amended. For every template with exactly \<open>k\<close> placeholders and every
  sequence of exactly \<open>k\<close> values, each of which \<open>literal\<close> encodes successfully, \<open>Expand\<close>
  succeeds: the result is the pieces of literal text of the template, unchanged and in
  order, with the literal of the \<open>i\<close>-th value in the place of the \<open>i\<close>-th placeholder.
  (The pieces are those between the placeholders: there are \<open>k + 1\<close>, none contains a
  placeholder, and with \<open>?\<close> between them they give the template back.) In particular
  \<open>Expand("SELECT * FROM users WHERE id = ?", [123])\<close> is
  \<open>SELECT * FROM users WHERE id = 123\<close>.
\<close>

theorem C1_Expand:
  assumes "count_list sql (CHR ''?'') = length vars"
    and "length lits = length vars"
    and "\<forall>i<length vars. literal L (schs i) (vars ! i) = Some (Inr (lits ! i))"
  shows "Expand L schs sql vars = Some (Inr (weave (splitOn (CHR ''?'') sql) lits))
    \<and> length (splitOn (CHR ''?'') sql) = length vars + 1
    \<and> (\<forall>seg\<in>set (splitOn (CHR ''?'') sql). CHR ''?'' \<notin> set seg)
    \<and> weave (splitOn (CHR ''?'') sql) (replicate (length vars) ''?'') = sql
    \<and> Expand L schs ''SELECT * FROM users WHERE id = ?'' [VInt 123]
        = Some (Inr ''SELECT * FROM users WHERE id = 123'')"
proof -
  have len: "length (tl (splitOn (CHR ''?'') sql)) = length vars"
    using assms(1) by (simp add: length_splitOn)
  have "expandPieces L schs 0 (tl (splitOn (CHR ''?'') sql)) vars ([] @ hd (splitOn (CHR ''?'') sql))
        = Some (Inr ([] @ weave (hd (splitOn (CHR ''?'') sql) # tl (splitOn (CHR ''?'') sql)) lits))"
    using len assms(2,3) by (intro expandPieces_success) auto
  then have main: "Expand L schs sql vars = Some (Inr (weave (splitOn (CHR ''?'') sql) lits))"
    by (simp add: Expand_pieces)
  have ex: "Expand L schs ''SELECT * FROM users WHERE id = ?'' [VInt 123]
        = Some (Inr ''SELECT * FROM users WHERE id = 123'')"
    by (simp add: Expand_pieces literal_VInt_123 del: literal.simps)
  have w: "weave (splitOn (CHR ''?'') sql) (replicate (length vars) ''?'') = sql"
    using weave_splitOn [of "CHR ''?''" sql] assms(1) by simp
  have l: "length (splitOn (CHR ''?'') sql) = length vars + 1"
    using assms(1) by (simp add: length_splitOn)
  have p: "\<forall>seg\<in>set (splitOn (CHR ''?'') sql). CHR ''?'' \<notin> set seg"
    using splitOn_pieces by blast
  from main l p w ex show ?thesis
    by blast
qed

text \<open>The theorem at a template with two placeholders and the values \<open>123\<close> and \<open>nil\<close>.\<close>

theorem C1_Expand_witness:
  "Expand plainLib listingOrder ''SELECT * FROM users WHERE id = ? AND name = ?''
     [VInt 123, VNil] = Some (Inr ''SELECT * FROM users WHERE id = 123 AND name = NULL'')"
proof -
  have 1: "count_list ''SELECT * FROM users WHERE id = ? AND name = ?'' (CHR ''?'')
           = length [VInt 123, VNil]"
    by simp
  have 2: "length [''123'', ''NULL''] = length [VInt 123, VNil]"
    by simp
  have 3: "\<forall>i<length [VInt 123, VNil].
             literal plainLib (listingOrder i) ([VInt 123, VNil] ! i) = Some (Inr ([''123'', ''NULL''] ! i))"
    by (simp add: less_Suc_eq_0_disj literal_VInt_123 del: literal.simps(3))
  have 4: "weave (splitOn (CHR ''?'') ''SELECT * FROM users WHERE id = ? AND name = ?'') [''123'', ''NULL'']
           = ''SELECT * FROM users WHERE id = 123 AND name = NULL''"
    by simp
  from C1_Expand [OF 1 2 3] show ?thesis
    unfolding 4 by blast
qed




text \<open>
  Claim C9 describes the neutralizer: the text is lower-cased for matching only, and for
  every occurrence of the pattern the untouched segment before it is emitted, then the
  replacement. On ASCII text the code does exactly this (\<open>replaceCaseInsensitive_ascii\<close>,
  \<open>rangePatterns_ascii\<close>: it computes \<open>neutralizeOne\<close>, pattern after pattern). In general
  it does not: \<open>replaceCaseInsensitive\<close> finds the occurrences in \<open>strings.ToLower(s)\<close> and
  cuts \<open>s\<close> at the same byte offsets, and lower-casing can change the length of text that
  is not ASCII. \<open>strings.ToLower\<close> maps U+0130 (two bytes, C4 B0) to \<open>i\<close> (one byte): on the
  six bytes of U+0130 U+0130 \<open>--\<close>, whose lower-casing is \<open>ii--\<close>, the code emits the
  first two bytes only, then \<open>__\<close>, then from offset 4 the bytes \<open>--\<close>: the result
  still holds the pattern, where the scan of the specification gives U+0130 U+0130 \<open>__\<close>.
\<close>

theorem C9_offsets_of_lowered_text:
  assumes "ToLower L [CHR 0xC4, CHR 0xB0, CHR 0xC4, CHR 0xB0, CHR ''-'', CHR ''-''] = ''ii--''"
  shows "replaceCaseInsensitive L [CHR 0xC4, CHR 0xB0, CHR 0xC4, CHR 0xB0, CHR ''-'', CHR ''-''] ''--'' ''__''
           = Some (Inr [CHR 0xC4, CHR 0xB0, CHR ''_'', CHR ''_'', CHR ''-'', CHR ''-''])
    \<and> neutralizeOne [CHR 0xC4, CHR 0xB0, CHR 0xC4, CHR 0xB0, CHR ''-'', CHR ''-''] ''--'' ''__''
           = [CHR 0xC4, CHR 0xB0, CHR 0xC4, CHR 0xB0, CHR ''_'', CHR ''_'']"
proof -
  have l: "ToLower L ''--'' = ''--''"
    by (simp add: ToLower_def lowerByte_def)
  have a: "replaceCaseInsensitive L [CHR 0xC4, CHR 0xB0, CHR 0xC4, CHR 0xB0, CHR ''-'', CHR ''-''] ''--'' ''__''
           = Some (Inr [CHR 0xC4, CHR 0xB0, CHR ''_'', CHR ''_'', CHR ''-'', CHR ''-''])"
    unfolding replaceCaseInsensitive_def assms l
    by (simp add: replaceLoop_unfold)
  have b: "neutralizeOne [CHR 0xC4, CHR 0xB0, CHR 0xC4, CHR 0xB0, CHR ''-'', CHR ''-''] ''--'' ''__''
           = [CHR 0xC4, CHR 0xB0, CHR 0xC4, CHR 0xB0, CHR ''_'', CHR ''_'']"
    by (simp add: evalText)
  from a b show ?thesis ..
qed

text \<open>The theorem at a library whose \<open>ToLower\<close> gives \<open>ii--\<close> on that text.\<close>

theorem C9_offsets_of_lowered_text_witness:
  "replaceCaseInsensitive (plainLib\<lparr>ToLower_nonASCII := (\<lambda>s. ''ii--'')\<rparr>)
     [CHR 0xC4, CHR 0xB0, CHR 0xC4, CHR 0xB0, CHR ''-'', CHR ''-''] ''--'' ''__''
     = Some (Inr [CHR 0xC4, CHR 0xB0, CHR ''_'', CHR ''_'', CHR ''-'', CHR ''-''])"
proof -
  have h: "ToLower (plainLib\<lparr>ToLower_nonASCII := (\<lambda>s. ''ii--'')\<rparr>)
             [CHR 0xC4, CHR 0xB0, CHR 0xC4, CHR 0xB0, CHR ''-'', CHR ''-''] = ''ii--''"
    by (simp add: ToLower_def)
  from C9_offsets_of_lowered_text [OF h] show ?thesis ..
qed




end
